theory Spec2Isabelle
  imports Complex_Main "HOL-Library.Sublist"
begin

section \<open>Strings\<close>

text \<open>
  JavaScript strings are sequences of code units; they are modelled as \<open>string\<close>
  (lists of 8-bit characters), each character standing for the code unit of the same
  number (the Latin-1 range). \<open>String.prototype.toLowerCase\<close> maps \<open>A\<close>..\<open>Z\<close> and
  the Latin-1 capitals (192..222 except the multiplication sign 215) to the code unit
  32 above and leaves every other code unit of the range alone.
\<close>

definition toLowerChar :: "char \<Rightarrow> char" where
  "toLowerChar c =
     (let n = (of_char c :: nat)
      in if (65 \<le> n \<and> n \<le> 90) \<or> (192 \<le> n \<and> n \<le> 222 \<and> n \<noteq> 215)
         then char_of (n + 32) else c)"

definition toLowerCase :: "string \<Rightarrow> string" where
  "toLowerCase s = map toLowerChar s"

text \<open>\<open>s.includes(t)\<close>: \<open>t\<close> occurs in \<open>s\<close> as a contiguous run.\<close>

definition str_includes :: "string \<Rightarrow> string \<Rightarrow> bool" where
  "str_includes s t = sublist t s"

text \<open>\<open>s.substring(0, n)\<close> for a non-negative \<open>n\<close>.\<close>

definition substring0 :: "nat \<Rightarrow> string \<Rightarrow> string" where
  "substring0 n s = take n s"

section \<open>Retry with exponential backoff (\<open>retryWithBackoff\<close>)\<close>

text \<open>
  A thrown value, as far as \<open>retryWithBackoff\<close> inspects it: its message, its
  \<open>status\<close> property and the \<open>status\<close> of its \<open>response\<close> property, each absent
  (\<open>None\<close>) or a number.
\<close>

record js_error =
  message :: string
  status :: "int option"
  response_status :: "int option"

text \<open>\<open>error.status || error.response?.status\<close>: a status of 0 is falsy.\<close>

definition error_status :: "js_error \<Rightarrow> int option" where
  "error_status e =
     (case status e of
        Some s \<Rightarrow> if s \<noteq> 0 then Some s else response_status e
      | None \<Rightarrow> response_status e)"

text \<open>\<open>status === 429 || (status >= 500 && status < 600)\<close>.\<close>

definition retryable :: "js_error \<Rightarrow> bool" where
  "retryable e =
     (case error_status e of
        None \<Rightarrow> False
      | Some s \<Rightarrow> s = 429 \<or> (500 \<le> s \<and> s < 600))"

text \<open>\<open>new Error('Max retries exceeded')\<close>: a fresh error with no status.\<close>

definition max_retries_error :: js_error where
  "max_retries_error =
     \<lparr>message = ''Max retries exceeded'', status = None, response_status = None\<rparr>"

datatype 'a retry_outcome = Returned 'a | Thrown js_error

text \<open>
  What one run of \<open>retryWithBackoff\<close> does: how it ends, how many times it called
  \<open>fn\<close>, and the delays (in milliseconds) it slept, in order.
\<close>

record 'a retry_run =
  outcome :: "'a retry_outcome"
  calls :: nat
  sleeps :: "nat list"

text \<open>
  The \<open>for\<close> loop of \<open>retryWithBackoff\<close>, at iteration \<open>i\<close>. \<open>fn\<close> is impure, so the
  model takes the result of its \<open>i\<close>-th call (counted from 0) as \<open>fn i\<close>:
  \<open>Inr v\<close> when it returns \<open>v\<close>, \<open>Inl e\<close> when it throws \<open>e\<close>.
\<close>

function retry_loop ::
  "(nat \<Rightarrow> js_error + 'a) \<Rightarrow> nat \<Rightarrow> nat \<Rightarrow> nat list \<Rightarrow> 'a retry_run" where
  "retry_loop fn maxRetries i slept =
     (if i < maxRetries then
        (case fn i of
           Inr v \<Rightarrow> \<lparr>outcome = Returned v, calls = Suc i, sleeps = slept\<rparr>
         | Inl e \<Rightarrow>
             if retryable e
             then retry_loop fn maxRetries (Suc i) (slept @ [2 ^ i * 1000])
             else \<lparr>outcome = Thrown e, calls = Suc i, sleeps = slept\<rparr>)
      else \<lparr>outcome = Thrown max_retries_error, calls = i, sleeps = slept\<rparr>)"
  by pat_completeness auto
termination
  by (relation "measure (\<lambda>(fn, maxRetries, i, slept). maxRetries - i)") auto

declare retry_loop.simps [simp del]

definition retryWithBackoff :: "(nat \<Rightarrow> js_error + 'a) \<Rightarrow> nat \<Rightarrow> 'a retry_run" where
  "retryWithBackoff fn maxRetries = retry_loop fn maxRetries 0 []"

text \<open>The delays slept before iterations \<open>1 .. k\<close>: 1 s, 2 s, 4 s, ...\<close>

definition backoff_delays :: "nat \<Rightarrow> nat list" where
  "backoff_delays k = map (\<lambda>j. 2 ^ j * 1000) [0..<k]"

section \<open>Text utilities of the collector (\<open>stripHTML\<close>) and of the ingestion module\<close>

text \<open>
  An optional string property of a parsed feed entry or API article: \<open>None\<close> when the
  property is absent. \<open>a || b\<close> yields \<open>a\<close> when it is a non-empty string.
\<close>

definition js_or :: "string option \<Rightarrow> string option \<Rightarrow> string option" where
  "js_or a b = (case a of Some s \<Rightarrow> if s \<noteq> [] then Some s else b | None \<Rightarrow> b)"

definition or_else :: "string option \<Rightarrow> string \<Rightarrow> string" where
  "or_else a d = (case a of Some s \<Rightarrow> if s \<noteq> [] then s else d | None \<Rightarrow> d)"

text \<open>The class \<open>\s\<close> within the Latin-1 range: tab to carriage return, space, no-break space.\<close>

definition is_space :: "char \<Rightarrow> bool" where
  "is_space c = (let n = (of_char c :: nat) in (9 \<le> n \<and> n \<le> 13) \<or> n = 32 \<or> n = 160)"

text \<open>
  \<open>.replace(/<[^>]*>/g, ' ')\<close>: a \<open><\<close> followed somewhere by a \<open>>\<close> is replaced, up
  to the first such \<open>>\<close>, by one space; a \<open><\<close> with no \<open>>\<close> after it stays.
\<close>

function replace_tags :: "string \<Rightarrow> string" where
  "replace_tags [] = []"
| "replace_tags (c # cs) =
     (if c = CHR ''<'' \<and> CHR ''>'' \<in> set cs
      then CHR '' '' # replace_tags (tl (dropWhile (\<lambda>x. x \<noteq> CHR ''>'') cs))
      else c # replace_tags cs)"
  by pat_completeness auto
termination
proof (relation "measure length")
  fix c :: char and cs :: string
  have "length (tl (dropWhile (\<lambda>x. x \<noteq> CHR ''>'') cs)) \<le> length cs"
    using length_dropWhile_le [of "\<lambda>x. x \<noteq> CHR ''>''" cs] by simp
  then show "(tl (dropWhile (\<lambda>x. x \<noteq> CHR ''>'') cs), c # cs) \<in> measure length"
    by simp
qed simp_all

text \<open>\<open>.replace(/pat/g, rep)\<close> for a literal, non-empty pattern.\<close>

function replace_all :: "string \<Rightarrow> string \<Rightarrow> string \<Rightarrow> string" where
  "replace_all pat rep [] = []"
| "replace_all pat rep (c # cs) =
     (if pat \<noteq> [] \<and> prefix pat (c # cs)
      then rep @ replace_all pat rep (drop (length pat) (c # cs))
      else c # replace_all pat rep cs)"
  by pat_completeness auto
termination
  by (relation "measure (\<lambda>(pat, rep, s). length s)") auto

text \<open>\<open>.replace(/\s+/g, ' ')\<close>: every maximal run of white space becomes one space.\<close>

function collapse_ws :: "string \<Rightarrow> string" where
  "collapse_ws [] = []"
| "collapse_ws (c # cs) =
     (if is_space c then CHR '' '' # collapse_ws (dropWhile is_space cs)
      else c # collapse_ws cs)"
  by pat_completeness auto
termination
proof (relation "measure length")
  fix c :: char and cs :: string
  show "(dropWhile is_space cs, c # cs) \<in> measure length"
    using length_dropWhile_le [of is_space cs] by simp
qed simp_all

definition trim :: "string \<Rightarrow> string" where
  "trim s = rev (dropWhile is_space (rev (dropWhile is_space s)))"

text \<open>\<open>stripHTML\<close> of the collector, in the source's order of replacements.\<close>

definition stripHTML :: "string \<Rightarrow> string" where
  "stripHTML html =
     (if html = [] then []
      else trim (collapse_ws
        (replace_all ''&#39;'' [CHR 0x27]
        (replace_all ''&quot;'' [CHR 0x22]
        (replace_all ''&gt;'' ''>''
        (replace_all ''&lt;'' ''<''
        (replace_all ''&amp;'' ''&''
        (replace_all ''&nbsp;'' '' ''
        (replace_tags html)))))))))"

text \<open>\<open>extractPlainText\<close> of the ingestion module: tags and white space only, at most 500 characters.\<close>

definition extractPlainText :: "string \<Rightarrow> string" where
  "extractPlainText html =
     (if html = [] then []
      else substring0 500 (trim (collapse_ws (replace_tags html))))"

section \<open>Content records\<close>

text \<open>
  A parsed feed entry or API article, with the properties the source reads; each is
  absent or a string.
\<close>

record feed_item =
  item_title :: "string option"
  item_description :: "string option"
  item_contentSnippet :: "string option"
  item_summary :: "string option"
  item_content :: "string option"
  item_content_encoded :: "string option"
  item_isoDate :: "string option"
  item_pubDate :: "string option"
  item_published :: "string option"
  item_link :: "string option"
  item_url :: "string option"
  item_guid :: "string option"

text \<open>
  A \<open>Date\<close>: built from a date string (\<open>new Date(s)\<close>, whose parsing is the
  platform's) or from the clock (\<open>new Date()\<close>, milliseconds since the epoch).
\<close>

datatype js_date = DateFrom string | DateAt int

text \<open>
  The content record written to storage. \<open>license\<close> is absent on records of the
  ingestion module; \<open>createdAt\<close> is absent until the record is persisted.
\<close>

record content_record =
  title :: string
  excerpt :: string
  plain_text :: string
  tags :: "string list"
  publishedAt :: js_date
  source :: string
  url :: string
  license :: "string option"
  contentType :: string
  important :: bool
  createdAt :: "int option"

text \<open>
  \<open>normalizeContent(item, source, tags, license, contentType)\<close> of the collector;
  \<open>now\<close> is the clock reading used when the item carries no date.
\<close>

definition normalizeContent ::
  "int \<Rightarrow> feed_item \<Rightarrow> string \<Rightarrow> string list \<Rightarrow> string \<Rightarrow> string \<Rightarrow> content_record" where
  "normalizeContent now item src tgs lic ctype =
     (let title' = substring0 200 (stripHTML (or_else (item_title item) ''Untitled''));
          description = stripHTML (or_else
            (js_or (item_description item) (js_or (item_contentSnippet item) (item_summary item))) []);
          excerpt' = substring0 200 description;
          plainText = (if lic = ''public-domain'' then description else excerpt');
          published = (case js_or (item_isoDate item) (js_or (item_pubDate item) (item_published item)) of
                         Some s \<Rightarrow> DateFrom s | None \<Rightarrow> DateAt now)
      in \<lparr>title = title', excerpt = excerpt', plain_text = plainText, tags = tgs,
          publishedAt = published, source = src,
          url = or_else (js_or (item_link item) (item_url item)) [],
          license = Some lic, contentType = ctype, important = False, createdAt = None\<rparr>)"

text \<open>
  The record \<open>parseFeed\<close> of the ingestion module builds for an entry (the entry has a
  link, or \<open>parseFeed\<close> skips it).
\<close>

definition parseFeed_content :: "int \<Rightarrow> feed_item \<Rightarrow> string \<Rightarrow> string list \<Rightarrow> content_record" where
  "parseFeed_content now item feedUrl tgs =
     (let excerpt' = or_else
            (js_or (item_contentSnippet item) (js_or (item_summary item) (item_description item))) [];
          plainText = extractPlainText (or_else
            (js_or (item_content item) (item_content_encoded item)) excerpt')
      in \<lparr>title = or_else (item_title item) ''Untitled'',
          excerpt = substring0 300 excerpt', plain_text = plainText, tags = tgs,
          publishedAt = (case item_isoDate item of
                           Some s \<Rightarrow> if s \<noteq> [] then DateFrom s else DateAt now
                         | None \<Rightarrow> DateAt now),
          source = feedUrl, url = or_else (item_link item) [],
          license = None, contentType = ''article'', important = False,
          createdAt = Some now\<rparr>)"

text \<open>
  The excerpt guard as the specification words it: the excerpt has at most 200
  characters, and a record whose license is not \<open>public-domain\<close> stores the capped
  excerpt as its full text.
\<close>

definition spec_excerpt_guard :: "content_record \<Rightarrow> bool" where
  "spec_excerpt_guard r =
     (length (excerpt r) \<le> 200 \<and>
      (if license r = Some ''public-domain'' then True else plain_text r = excerpt r))"

text \<open>A feed entry whose snippet has 201 characters and that has no other text.\<close>

definition snippet_201_item :: feed_item where
  "snippet_201_item = \<lparr>item_title = Some ''T'', item_description = None,
     item_contentSnippet = Some (replicate 201 CHR ''a''), item_summary = None,
     item_content = None, item_content_encoded = None, item_isoDate = None,
     item_pubDate = None, item_published = None, item_link = Some ''http://x/1'',
     item_url = None, item_guid = None\<rparr>"

section \<open>Document identifiers (\<open>generateDocId\<close> of the collector)\<close>

text \<open>\<open>.replace(/^https?:\/\//, '')\<close>.\<close>

definition strip_scheme :: "string \<Rightarrow> string" where
  "strip_scheme s =
     (if prefix ''http://'' s then drop 7 s
      else if prefix ''https://'' s then drop 8 s
      else s)"

text \<open>\<open>.replace(/\/$/, '')\<close>: one slash at the very end.\<close>

definition strip_trailing_slash :: "string \<Rightarrow> string" where
  "strip_trailing_slash s = (if s \<noteq> [] \<and> last s = CHR ''/'' then butlast s else s)"

definition is_lower_alnum :: "char \<Rightarrow> bool" where
  "is_lower_alnum c =
     (let n = (of_char c :: nat) in (97 \<le> n \<and> n \<le> 122) \<or> (48 \<le> n \<and> n \<le> 57))"

text \<open>\<open>.replace(/[^a-z0-9]/g, '_')\<close>.\<close>

definition fill_char :: "char \<Rightarrow> char" where
  "fill_char c = (if is_lower_alnum c then c else CHR ''_'')"

definition normalize_url :: "string \<Rightarrow> string" where
  "normalize_url u =
     substring0 100 (map fill_char (strip_trailing_slash (strip_scheme (toLowerCase u))))"

text \<open>
  \<open>generateDocId\<close>. The MD5 digest in hexadecimal comes from the platform's crypto
  library; it is the parameter \<open>md5_hex\<close>.
\<close>

definition generateDocId :: "(string \<Rightarrow> string) \<Rightarrow> string \<Rightarrow> string" where
  "generateDocId md5_hex u = substring0 20 (md5_hex (normalize_url u))"

section \<open>Recommendation engine: storage as the resolver reads it\<close>

text \<open>
  A document of the \<open>content\<close> collection with the fields the recommender reads:
  \<open>tags\<close> and \<open>publishedAt\<close> may be absent; \<open>publishedAt\<close> is the stored timestamp in
  milliseconds since the epoch.
\<close>

record content_doc =
  doc_title :: string
  doc_excerpt :: string
  doc_tags :: "string list option"
  doc_publishedAt :: "int option"
  doc_important :: bool
  doc_contentType :: string
  doc_url :: string

text \<open>A document of the \<open>users\<close> collection: \<open>interests\<close> may be absent.\<close>

record user_doc =
  interests :: "string list option"
  displayName :: string

text \<open>
  The document store during one request: point look-ups by id, and the answer of the
  recent-content query of the fallback (\<open>publishedAt >= now - 120 days\<close>, ordered by
  \<open>publishedAt\<close> descending, at most 300 documents), as pairs of id and document.
  Look-ups are taken not to fail.
\<close>

record db =
  users :: "string \<rightharpoonup> user_doc"
  content :: "string \<rightharpoonup> content_doc"
  recent_content :: "(string \<times> content_doc) list"

text \<open>One recommended item. Scores are JavaScript numbers, modelled as exact rationals.\<close>

record rec_item =
  contentId :: string
  score :: rat
  rec_title :: string
  rec_excerpt :: string
  rec_tags :: "string list option"
  rec_publishedAt :: "int option"
  rec_url :: string

record rec_result =
  items :: "rec_item list"
  result_source :: string
  reason :: "string option"
  cached :: bool

text \<open>\<open>xs.slice(0, n)\<close> for an integer \<open>n\<close>: a negative \<open>n\<close> counts from the end.\<close>

definition slice0 :: "int \<Rightarrow> 'a list \<Rightarrow> 'a list" where
  "slice0 n xs = (if 0 \<le> n then take (nat n) xs else take (length xs - nat (- n)) xs)"

text \<open>\<open>data.tags || []\<close> and \<open>data.publishedAt?.toDate() || new Date()\<close>.\<close>

abbreviation tags_or_empty :: "content_doc \<Rightarrow> string list" where
  "tags_or_empty d \<equiv> (case doc_tags d of Some t \<Rightarrow> t | None \<Rightarrow> [])"

abbreviation published_or :: "int \<Rightarrow> content_doc \<Rightarrow> int" where
  "published_or now d \<equiv> (case doc_publishedAt d of Some p \<Rightarrow> p | None \<Rightarrow> now)"

section \<open>Fallback scorer (\<open>getFallbackRecommendations\<close>)\<close>

text \<open>\<open>tags.filter(tag => userInterests.includes(tag)).length\<close>.\<close>

definition tagMatchCount :: "string list \<Rightarrow> string list \<Rightarrow> nat" where
  "tagMatchCount userInterests tgs = length (filter (\<lambda>tag. tag \<in> set userInterests) tgs)"

text \<open>The test inside \<open>userInterests.some\<close>, for one tag and one interest.\<close>

definition partial_pair :: "string \<Rightarrow> string \<Rightarrow> bool" where
  "partial_pair tag interest =
     (str_includes (toLowerCase tag) (toLowerCase interest) \<or>
      str_includes (toLowerCase interest) (toLowerCase tag))"

text \<open>\<open>tags.filter(tag => userInterests.some(...)).length\<close>.\<close>

definition partialMatches :: "string list \<Rightarrow> string list \<Rightarrow> nat" where
  "partialMatches userInterests tgs =
     length (filter (\<lambda>tag. list_ex (\<lambda>interest. partial_pair tag interest) userInterests) tgs)"

text \<open>
  \<open>Math.max(0, 5 - daysSince / 7)\<close> with
  \<open>daysSince = (Date.now() - publishedAt.getTime()) / (1000 * 60 * 60 * 24)\<close>.
\<close>

definition recencyBoost :: "int \<Rightarrow> int \<Rightarrow> rat" where
  "recencyBoost now published =
     max 0 (5 - (of_int (now - published) / of_int (1000 * 60 * 60 * 24)) / 7)"

text \<open>
  The score of one document. A document without \<open>publishedAt\<close> counts as published at
  the clock reading \<open>now\<close>; the content-type factor is 1 for \<open>article\<close> and 0.8 for
  every other content type. The code computes in IEEE double precision; the model
  computes the same expression in exact rational arithmetic (0.8 as \<open>8 / 10\<close>, the
  division by 7 exact). The two agree wherever every intermediate value is exactly
  representable, as for integer scores; elsewhere the code's score is the rounding of
  the model's, so two documents that tie in the model may differ in the last bit in the
  code and be ordered by it.
\<close>

definition fallback_score :: "string list \<Rightarrow> int \<Rightarrow> content_doc \<Rightarrow> rat" where
  "fallback_score userInterests now d =
     (let tgs = (case doc_tags d of Some t \<Rightarrow> t | None \<Rightarrow> []);
          published = (case doc_publishedAt d of Some p \<Rightarrow> p | None \<Rightarrow> now);
          tagMatchScore = of_nat (tagMatchCount userInterests tgs * 10);
          partialMatchScore = of_nat (partialMatches userInterests tgs * 5);
          importanceBoost = (if doc_important d then 3 else 0);
          contentTypeBoost = (if doc_contentType d = ''article'' then 1 else 8 / 10)
      in (tagMatchScore + partialMatchScore + recencyBoost now published + importanceBoost)
           * contentTypeBoost)"

text \<open>The body of \<open>contentSnapshot.forEach\<close>: the scored items, in the order of the query.\<close>

fun scoredItems :: "string list \<Rightarrow> int \<Rightarrow> (string \<times> content_doc) list \<Rightarrow> rec_item list" where
  "scoredItems userInterests now [] = []"
| "scoredItems userInterests now ((docid, d) # rest) =
     (let tgs = (case doc_tags d of Some t \<Rightarrow> t | None \<Rightarrow> [])
      in if tagMatchCount userInterests tgs > 0 \<or> partialMatches userInterests tgs > 0
         then \<lparr>contentId = docid, score = fallback_score userInterests now d,
               rec_title = doc_title d, rec_excerpt = doc_excerpt d, rec_tags = doc_tags d,
               rec_publishedAt = Some (case doc_publishedAt d of Some p \<Rightarrow> p | None \<Rightarrow> now),
               rec_url = doc_url d\<rparr> # scoredItems userInterests now rest
         else scoredItems userInterests now rest)"

text \<open>\<open>scoredItems.sort((a, b) => b.score - a.score)\<close>: a stable sort, highest score first.\<close>

definition sort_by_score_desc :: "rec_item list \<Rightarrow> rec_item list" where
  "sort_by_score_desc xs = sort_key (\<lambda>i. - score i) xs"

definition fallback_empty :: "string \<Rightarrow> rec_result" where
  "fallback_empty why =
     \<lparr>items = [], result_source = ''fallback'', reason = Some why, cached = False\<rparr>"

definition getFallbackRecommendations :: "db \<Rightarrow> int \<Rightarrow> string \<Rightarrow> int \<Rightarrow> rec_result" where
  "getFallbackRecommendations store now uid count =
     (case users store uid of
        None \<Rightarrow> fallback_empty ''user_not_found''
      | Some u \<Rightarrow>
          (let userInterests = (case interests u of Some i \<Rightarrow> i | None \<Rightarrow> [])
           in if userInterests = [] then fallback_empty ''no_interests''
              else if recent_content store = [] then fallback_empty ''no_content''
              else \<lparr>items = slice0 count
                       (sort_by_score_desc (scoredItems userInterests now (recent_content store))),
                     result_source = ''fallback'', reason = None, cached = False\<rparr>))"

text \<open>
  The score as the specification words it: exact matches are tags found verbatim among
  the interests; partial matches are the pairs of a tag and an interest of which one
  contains the other, without the pairs already counted as exact; the factor is 0.8
  for poems.
\<close>

definition spec_exactMatches :: "string list \<Rightarrow> string list \<Rightarrow> nat" where
  "spec_exactMatches userInterests tgs = length (filter (\<lambda>tag. tag \<in> set userInterests) tgs)"

definition spec_partialMatches :: "string list \<Rightarrow> string list \<Rightarrow> nat" where
  "spec_partialMatches userInterests tgs =
     length (filter (\<lambda>(tag, interest).
         (str_includes tag interest \<or> str_includes interest tag) \<and> tag \<noteq> interest)
       (List.product tgs userInterests))"

definition spec_score :: "string list \<Rightarrow> int \<Rightarrow> content_doc \<Rightarrow> rat" where
  "spec_score userInterests now d =
     (let tgs = (case doc_tags d of Some t \<Rightarrow> t | None \<Rightarrow> []);
          published = (case doc_publishedAt d of Some p \<Rightarrow> p | None \<Rightarrow> now)
      in (of_nat (spec_exactMatches userInterests tgs) * 10
          + of_nat (spec_partialMatches userInterests tgs) * 5
          + recencyBoost now published
          + (if doc_important d then 3 else 0))
         * (if doc_contentType d = ''poem'' then 8 / 10 else 1))"

section \<open>Relevance filter of the resolver\<close>

text \<open>\<open>tags.some(tag => userInterests.includes(tag.toLowerCase()))\<close>.\<close>

definition hasExactMatch :: "string list \<Rightarrow> string list \<Rightarrow> bool" where
  "hasExactMatch userInterests tgs = list_ex (\<lambda>tag. toLowerCase tag \<in> set userInterests) tgs"

definition hasPartialMatch :: "string list \<Rightarrow> string list \<Rightarrow> bool" where
  "hasPartialMatch userInterests tgs =
     list_ex (\<lambda>tag. list_ex (\<lambda>interest. partial_pair tag interest) userInterests) tgs"

text \<open>\<open>userInterests.length === 0 || hasExactMatch || hasPartialMatch\<close>.\<close>

definition relevant :: "string list \<Rightarrow> string list \<Rightarrow> bool" where
  "relevant userInterests tgs =
     (userInterests = [] \<or> hasExactMatch userInterests tgs \<or> hasPartialMatch userInterests tgs)"

text \<open>
  Relevance as the specification words it: no interests, or a tag equal to an interest
  up to letter case, or a tag and an interest of which one contains the other up to
  letter case.
\<close>

definition spec_relevant :: "string list \<Rightarrow> string list \<Rightarrow> bool" where
  "spec_relevant userInterests tgs =
     (userInterests = [] \<or>
      (\<exists>tag \<in> set tgs. \<exists>interest \<in> set userInterests. toLowerCase tag = toLowerCase interest) \<or>
      (\<exists>tag \<in> set tgs. \<exists>interest \<in> set userInterests.
          sublist (toLowerCase interest) (toLowerCase tag) \<or>
          sublist (toLowerCase tag) (toLowerCase interest)))"

section \<open>Recommendation cache and request throttle\<close>

definition CACHE_TTL_MS :: int where
  "CACHE_TTL_MS = 5 * 60 * 1000"

definition RATE_LIMIT_MS :: int where
  "RATE_LIMIT_MS = 1 * 1000"

record cache_entry =
  data :: rec_result
  timestamp :: int

text \<open>The two module-level maps: \<open>cache\<close> and \<open>rateLimitMap\<close>.\<close>

record resolver_state =
  cache :: "string \<rightharpoonup> cache_entry"
  rateLimitMap :: "string \<rightharpoonup> int"

text \<open>The decimal numeral of an integer, as a template literal prints it.\<close>

fun show_nat_fuel :: "nat \<Rightarrow> nat \<Rightarrow> string" where
  "show_nat_fuel 0 n = [char_of (48 + n mod 10)]"
| "show_nat_fuel (Suc f) n =
     (if n < 10 then [char_of (48 + n)]
      else show_nat_fuel f (n div 10) @ [char_of (48 + n mod 10)])"

definition show_int :: "int \<Rightarrow> string" where
  "show_int i =
     (if i < 0 then CHR ''-'' # show_nat_fuel (nat (- i)) (nat (- i))
      else show_nat_fuel (nat i) (nat i))"

text \<open>\<open>`${uid}:${count}`\<close>.\<close>

definition getCacheKey :: "string \<Rightarrow> int \<Rightarrow> string" where
  "getCacheKey uid count = uid @ '':'' @ show_int count"

text \<open>
  \<open>getCachedRecommendations\<close>: the cached data, if an entry exists and is not older
  than the time to live; an older entry is deleted.
\<close>

definition getCachedRecommendations ::
  "int \<Rightarrow> string \<Rightarrow> int \<Rightarrow> resolver_state \<Rightarrow> rec_result option \<times> resolver_state" where
  "getCachedRecommendations now uid count st =
     (let key = getCacheKey uid count
      in case cache st key of
           None \<Rightarrow> (None, st)
         | Some c \<Rightarrow>
             if now - timestamp c > CACHE_TTL_MS
             then (None, st\<lparr>cache := (cache st)(key := None)\<rparr>)
             else (Some (data c), st))"

definition setCachedRecommendations ::
  "int \<Rightarrow> string \<Rightarrow> int \<Rightarrow> rec_result \<Rightarrow> resolver_state \<Rightarrow> resolver_state" where
  "setCachedRecommendations now uid count d st =
     st\<lparr>cache := (cache st)(getCacheKey uid count \<mapsto> \<lparr>data = d, timestamp = now\<rparr>)\<rparr>"

text \<open>\<open>invalidateCache\<close>: every key that starts with \<open>`${uid}:`\<close> is deleted.\<close>

definition invalidateCache :: "string \<Rightarrow> resolver_state \<Rightarrow> resolver_state" where
  "invalidateCache uid st =
     st\<lparr>cache := (\<lambda>key. if prefix (uid @ '':'') key then None else cache st key)\<rparr>"

text \<open>
  \<open>checkRateLimit\<close>: \<open>False\<close> when the user's last admitted call is less than a second
  old (a stored time of 0 is falsy and counts as none); otherwise the call is admitted
  and its time stored.
\<close>

definition checkRateLimit :: "int \<Rightarrow> string \<Rightarrow> resolver_state \<Rightarrow> bool \<times> resolver_state" where
  "checkRateLimit now uid st =
     (case rateLimitMap st uid of
        Some lastCall \<Rightarrow>
          if lastCall \<noteq> 0 \<and> now - lastCall < RATE_LIMIT_MS then (False, st)
          else (True, st\<lparr>rateLimitMap := (rateLimitMap st)(uid \<mapsto> now)\<rparr>)
      | None \<Rightarrow> (True, st\<lparr>rateLimitMap := (rateLimitMap st)(uid \<mapsto> now)\<rparr>))"

section \<open>Recommendation resolver (\<open>getRecommendationsForUser\<close>)\<close>

text \<open>
  One recommendation of the ranker: an object with an \<open>Id\<close> and possibly a \<open>Score\<close>,
  or a bare id.
\<close>

datatype gorse_rec = RecObj string "rat option" | RecId string

fun rec_id :: "gorse_rec \<Rightarrow> string" where
  "rec_id (RecObj i s) = i"
| "rec_id (RecId i) = i"

text \<open>\<open>gorseRecommendations[idx].Score || 1.0\<close>: an absent or zero score gives 1.\<close>

fun rec_score :: "gorse_rec \<Rightarrow> rat" where
  "rec_score (RecObj i (Some s)) = (if s \<noteq> 0 then s else 1)"
| "rec_score (RecObj i None) = 1"
| "rec_score (RecId i) = 1"

text \<open>
  The body of \<open>contentDocs.forEach\<close>: the documents are those of the first \<open>count\<close>
  recommendations, in their order, so the loop is over these recommendations.
\<close>

fun ranker_items :: "db \<Rightarrow> string list \<Rightarrow> gorse_rec list \<Rightarrow> rec_item list" where
  "ranker_items store userInterests [] = []"
| "ranker_items store userInterests (r # rs) =
     (case content store (rec_id r) of
        None \<Rightarrow> ranker_items store userInterests rs
      | Some d \<Rightarrow>
          if relevant userInterests (case doc_tags d of Some t \<Rightarrow> t | None \<Rightarrow> [])
          then \<lparr>contentId = rec_id r, score = rec_score r, rec_title = doc_title d,
                rec_excerpt = doc_excerpt d, rec_tags = doc_tags d,
                rec_publishedAt = doc_publishedAt d, rec_url = doc_url d\<rparr>
               # ranker_items store userInterests rs
          else ranker_items store userInterests rs)"

text \<open>
  \<open>getRecommendationsForUser\<close>. \<open>gorse\<close> is the ranker's answer to this request:
  \<open>None\<close> when the request throws, the list of recommendations otherwise. All clock
  readings of one request are taken at the one instant \<open>now\<close>.
\<close>

definition getRecommendationsForUser ::
  "db \<Rightarrow> gorse_rec list option \<Rightarrow> int \<Rightarrow> string \<Rightarrow> int \<Rightarrow> resolver_state
     \<Rightarrow> rec_result \<times> resolver_state" where
  "getRecommendationsForUser store gorse now uid count st =
     (case getCachedRecommendations now uid count st of
        (Some c, st1) \<Rightarrow> (c\<lparr>cached := True\<rparr>, st1)
      | (None, st1) \<Rightarrow>
          (case gorse of
             None \<Rightarrow> (getFallbackRecommendations store now uid count, st1)
           | Some gorseRecommendations \<Rightarrow>
               (let top = slice0 count gorseRecommendations
                in if top = [] then (getFallbackRecommendations store now uid count, st1)
                   else
                     (let userInterests =
                            (case users store uid of
                               Some u \<Rightarrow> (case interests u of Some i \<Rightarrow> i | None \<Rightarrow> [])
                             | None \<Rightarrow> []);
                          its = ranker_items store userInterests top;
                          its' = (if int (length its) < count \<and> userInterests \<noteq> []
                                  then its @ items (getFallbackRecommendations store now uid
                                                     (count - int (length its)))
                                  else its);
                          result = \<lparr>items = slice0 count its', result_source = ''gorse'',
                                    reason = None, cached = False\<rparr>
                      in (result, setCachedRecommendations now uid count result st1)))))"

text \<open>
  The handler of \<open>GET /recommendations\<close>: 400 without a \<open>uid\<close>, 429 when the rate
  check refuses, the resolver's result otherwise.
\<close>

datatype http_response = BadRequest | RateLimitExceeded | OkJson rec_result

definition recommendations_endpoint ::
  "db \<Rightarrow> gorse_rec list option \<Rightarrow> int \<Rightarrow> string option \<Rightarrow> int \<Rightarrow> resolver_state
     \<Rightarrow> http_response \<times> resolver_state" where
  "recommendations_endpoint store gorse now uid_param count st =
     (case uid_param of
        None \<Rightarrow> (BadRequest, st)
      | Some uid \<Rightarrow>
          if uid = [] then (BadRequest, st)
          else
            (case checkRateLimit now uid st of
               (False, st1) \<Rightarrow> (RateLimitExceeded, st1)
             | (True, st1) \<Rightarrow>
                 (case getRecommendationsForUser store gorse now uid count st1 of
                    (r, st2) \<Rightarrow> (OkJson r, st2))))"

text \<open>The handler of \<open>POST /invalidate-cache\<close>, as far as it touches the two maps.\<close>

definition invalidate_endpoint :: "string \<Rightarrow> resolver_state \<Rightarrow> resolver_state" where
  "invalidate_endpoint uid st =
     (let st1 = invalidateCache uid st
      in st1\<lparr>rateLimitMap := (rateLimitMap st1)(uid := None)\<rparr>)"

definition initial_state :: resolver_state where
  "initial_state = \<lparr>cache = Map.empty, rateLimitMap = Map.empty\<rparr>"

text \<open>
  The operations on the resolver's state: a resolve request (with the store, the
  ranker's answer and the clock reading of that request), a request through the HTTP
  handler, and an invalidation.
\<close>

datatype resolver_op =
    Resolve db "gorse_rec list option" int string int
  | Request db "gorse_rec list option" int string int
  | Invalidate string

fun apply_op :: "resolver_op \<Rightarrow> resolver_state \<Rightarrow> resolver_state" where
  "apply_op (Resolve store gorse now uid count) st =
     snd (getRecommendationsForUser store gorse now uid count st)"
| "apply_op (Request store gorse now uid count) st =
     snd (recommendations_endpoint store gorse now (Some uid) count st)"
| "apply_op (Invalidate uid) st = invalidate_endpoint uid st"

fun run_ops :: "resolver_op list \<Rightarrow> resolver_state \<Rightarrow> resolver_state" where
  "run_ops [] st = st"
| "run_ops (op # ops) st = run_ops ops (apply_op op st)"

text \<open>A small store and ranker answer for concrete runs.\<close>

definition sample_doc :: content_doc where
  "sample_doc = \<lparr>doc_title = ''T'', doc_excerpt = ''E'', doc_tags = Some [''technology''],
     doc_publishedAt = Some 0, doc_important = False, doc_contentType = ''article'',
     doc_url = ''http://x/1''\<rparr>"

definition sample_db :: db where
  "sample_db = \<lparr>users = [''u'' \<mapsto> \<lparr>interests = Some [''technology''], displayName = ''U''\<rparr>],
     content = [''c1'' \<mapsto> sample_doc],
     recent_content = [(''c1'', sample_doc)]\<rparr>"

definition sample_recs :: "gorse_rec list" where
  "sample_recs = [RecObj ''c1'' (Some (9 / 10))]"

text \<open>
  The candidates of the relevance example: a user interested in technology and design,
  and three stored documents tagged \<open>technology\<close>, \<open>tech-news\<close> and \<open>poetry\<close>.
\<close>

definition relevance_db :: db where
  "relevance_db =
     \<lparr>users = [''u'' \<mapsto> \<lparr>interests = Some [''technology'', ''design''], displayName = ''U''\<rparr>],
      content = [''a'' \<mapsto> sample_doc\<lparr>doc_tags := Some [''technology'']\<rparr>,
                 ''b'' \<mapsto> sample_doc\<lparr>doc_tags := Some [''tech-news'']\<rparr>,
                 ''c'' \<mapsto> sample_doc\<lparr>doc_tags := Some [''poetry'']\<rparr>],
      recent_content = []\<rparr>"

text \<open>
  The candidate of the scoring example, scored thirty days after the epoch: an article
  with two exact matches published at that instant.
\<close>

definition day_30 :: int where
  "day_30 = 30 * 86400000"

definition doc_today :: content_doc where
  "doc_today = sample_doc\<lparr>doc_tags := Some [''technology'', ''design''],
                          doc_publishedAt := Some day_30\<rparr>"

text \<open>
  An operation during which the ranker gives the resolver nothing: its request fails
  or yields no candidate id. Invalidations do not call the ranker.
\<close>

fun ranker_down :: "resolver_op \<Rightarrow> bool" where
  "ranker_down (Resolve store gorse now uid count) =
     (case gorse of None \<Rightarrow> True | Some recs \<Rightarrow> slice0 count recs = [])"
| "ranker_down (Request store gorse now uid count) =
     (case gorse of None \<Rightarrow> True | Some recs \<Rightarrow> slice0 count recs = [])"
| "ranker_down (Invalidate uid) = True"

text \<open>Every cached result was produced on the ranker path.\<close>

definition cache_from_ranker :: "resolver_state \<Rightarrow> bool" where
  "cache_from_ranker st =
     (\<forall>key c. cache st key = Some c \<longrightarrow> result_source (data c) = ''gorse'')"

text \<open>
  The state after one request through the handler at time 100, answered by the ranker.
\<close>

definition state_after_first_request :: resolver_state where
  "state_after_first_request =
     snd (recommendations_endpoint sample_db (Some sample_recs) 100 (Some ''u'') 20 initial_state)"

section \<open>Collection orchestrator (\<open>collectAllContent\<close>)\<close>

text \<open>An element of a fetcher's \<open>items\<close>: \<open>{docId, data}\<close>.\<close>

record collected_item =
  docId :: string
  item_data :: content_record

text \<open>What a fetcher reports for one source: \<open>{success, source, error?, items}\<close>.\<close>

record fetch_result =
  success :: bool
  fr_source :: string
  fr_error :: "string option"
  fr_items :: "collected_item list"

text \<open>
  What the call of one registered fetcher yields in a run: the content-group fetchers
  resolve to an array with one result per feed, the API fetchers to a single result, and
  a promise that rejects is caught by the orchestrator, logged and replaced by \<open>[]\<close>.
\<close>

datatype fetcher_outcome =
    ResultList "fetch_result list"
  | SingleResult fetch_result
  | Rejected string

text \<open>The contribution of one fetcher to \<open>allResults.flat()\<close>.\<close>

fun outcome_results :: "fetcher_outcome \<Rightarrow> fetch_result list" where
  "outcome_results (ResultList rs) = rs"
| "outcome_results (SingleResult r) = [r]"
| "outcome_results (Rejected msg) = []"

text \<open>
  \<open>sources ? fetchers.filter(f => sources.includes(f.name)) : fetchers\<close>, on the
  registered fetchers paired with what each yields.
\<close>

definition activeFetchers ::
  "string list option \<Rightarrow> (string \<times> fetcher_outcome) list \<Rightarrow> (string \<times> fetcher_outcome) list" where
  "activeFetchers sources fetchers =
     (case sources of
        None \<Rightarrow> fetchers
      | Some names \<Rightarrow> filter (\<lambda>f. fst f \<in> set names) fetchers)"

text \<open>
  \<open>Promise.all\<close> keeps the order of the fetchers whatever the order of completion, so
  the flattened results are those of the active fetchers in their order.
\<close>

definition flatResults ::
  "string list option \<Rightarrow> (string \<times> fetcher_outcome) list \<Rightarrow> fetch_result list" where
  "flatResults sources fetchers =
     concat (map (\<lambda>f. outcome_results (snd f)) (activeFetchers sources fetchers))"

record aggregate =
  allItems :: "collected_item list"
  errors :: "(string \<times> string) list"
  feedsAttempted :: nat
  feedsSucceeded :: nat

text \<open>The loop \<open>for (const result of flatResults)\<close>.\<close>

fun aggregate_results :: "fetch_result list \<Rightarrow> aggregate \<Rightarrow> aggregate" where
  "aggregate_results [] a = a"
| "aggregate_results (r # rs) a =
     (let a1 = a\<lparr>feedsAttempted := feedsAttempted a + 1\<rparr>
      in if success r
         then aggregate_results rs
                (a1\<lparr>feedsSucceeded := feedsSucceeded a1 + 1, allItems := allItems a1 @ fr_items r\<rparr>)
         else aggregate_results rs
                (a1\<lparr>errors := errors a1 @ [(fr_source r, or_else (fr_error r) ''Unknown error'')]\<rparr>))"

definition empty_aggregate :: aggregate where
  "empty_aggregate = \<lparr>allItems = [], errors = [], feedsAttempted = 0, feedsSucceeded = 0\<rparr>"

text \<open>
  The \<open>content\<close> collection as the orchestrator uses it: documents by id, in the order of
  their creation; \<open>docRef.set\<close> replaces the document of an id or adds one.
\<close>

type_synonym content_store = "(string \<times> content_record) list"

definition doc_exists :: "content_store \<Rightarrow> string \<Rightarrow> bool" where
  "doc_exists store k = (k \<in> fst ` set store)"

fun doc_set :: "string \<Rightarrow> content_record \<Rightarrow> content_store \<Rightarrow> content_store" where
  "doc_set k v [] = [(k, v)]"
| "doc_set k v (p # ps) = (if fst p = k then (k, v) # ps else p # doc_set k v ps)"

text \<open>
  How the storage calls on one item go: both succeed, \<open>docRef.get\<close> throws, or
  \<open>docRef.set\<close> throws. A throw is caught inside the loop and logged.
\<close>

datatype io_outcome = IoOk | GetThrows | SetThrows

record persist_state =
  ps_store :: content_store
  newItemsAdded :: nat
  existingItems :: nat
  itemsToSync :: "collected_item list"

text \<open>
  The loop \<open>for (const item of allItems)\<close> from item number \<open>i\<close> on; \<open>cap\<close> is
  \<open>MAX_NEW_ITEMS_PER_RUN\<close>, \<open>io i\<close> tells how the storage calls on item \<open>i\<close> go, and
  \<open>now\<close> is the clock reading stored as \<open>createdAt\<close>. The code reads the clock anew
  (\<open>new Date()\<close>) at each write; the model stamps every document of one run with the one
  reading \<open>now\<close>, so the \<open>createdAt\<close> values of the model say in which run a document was
  written, not at which instant of it.
\<close>

fun persist_loop ::
  "nat \<Rightarrow> int \<Rightarrow> (nat \<Rightarrow> io_outcome) \<Rightarrow> nat \<Rightarrow> collected_item list \<Rightarrow> persist_state
     \<Rightarrow> persist_state" where
  "persist_loop cap now io i [] ps = ps"
| "persist_loop cap now io i (item # rest) ps =
     (if newItemsAdded ps \<ge> cap then ps
      else if io i = GetThrows then persist_loop cap now io (Suc i) rest ps
      else if doc_exists (ps_store ps) (docId item)
        then persist_loop cap now io (Suc i) rest (ps\<lparr>existingItems := existingItems ps + 1\<rparr>)
      else if io i = SetThrows then persist_loop cap now io (Suc i) rest ps
      else persist_loop cap now io (Suc i) rest
             (ps\<lparr>ps_store := doc_set (docId item) ((item_data item)\<lparr>createdAt := Some now\<rparr>) (ps_store ps),
                 newItemsAdded := newItemsAdded ps + 1,
                 itemsToSync := itemsToSync ps @ [item]\<rparr>))"

text \<open>
  The metrics document and the report of a run. A dry run reports the feeds attempted
  and succeeded, the number of items found, the duration and the errors; a live run
  reports what its metrics document holds (the returned object gives the duration in
  seconds). The writes of the two metrics documents are taken not to fail.
\<close>

record run_metrics =
  m_timestamp :: int
  m_feedsAttempted :: nat
  m_feedsSucceeded :: nat
  m_newItemsAdded :: nat
  m_totalItemsInFirestore :: nat
  m_syncedToGorse :: nat
  m_duration :: int
  m_errors :: "(string \<times> string) list"

datatype run_report =
    DryRunReport nat nat nat int "(string \<times> string) list"
  | CompleteReport run_metrics

text \<open>
  The storage the orchestrator writes: the content collection and the two metrics
  documents.
\<close>

record collector_db =
  content_docs :: content_store
  collection_metrics_latest :: "run_metrics option"
  last_collection_run_state :: "run_metrics option"

text \<open>
  The surroundings of one run: the item cap, the registered fetchers with what each
  yields, how the storage calls on each item go, whether the ranker accepts the bulk
  submission, and the clock readings at the start (also used for the documents written)
  and at the end.
\<close>

record run_env =
  max_new_items :: nat
  fetchers :: "(string \<times> fetcher_outcome) list"
  io_of :: "nat \<Rightarrow> io_outcome"
  gorse_accepts :: bool
  started :: int
  finished :: int

definition collectAllContent ::
  "run_env \<Rightarrow> bool \<Rightarrow> string list option \<Rightarrow> collector_db \<Rightarrow> run_report \<times> collector_db" where
  "collectAllContent env dry sources cdb =
     (let agg = aggregate_results (flatResults sources (fetchers env)) empty_aggregate
      in if dry
         then (DryRunReport (feedsAttempted agg) (feedsSucceeded agg) (length (allItems agg))
                 (finished env - started env) (errors agg), cdb)
         else
           (let ps = persist_loop (max_new_items env) (started env) (io_of env) 0 (allItems agg)
                       \<lparr>ps_store = content_docs cdb, newItemsAdded = 0, existingItems = 0,
                        itemsToSync = []\<rparr>;
                syncedToGorse = (if itemsToSync ps \<noteq> [] \<and> gorse_accepts env
                                 then length (itemsToSync ps) else 0);
                metrics = \<lparr>m_timestamp = finished env,
                           m_feedsAttempted = feedsAttempted agg,
                           m_feedsSucceeded = feedsSucceeded agg,
                           m_newItemsAdded = newItemsAdded ps,
                           m_totalItemsInFirestore = length (ps_store ps),
                           m_syncedToGorse = syncedToGorse,
                           m_duration = finished env - started env,
                           m_errors = errors agg\<rparr>
            in (CompleteReport metrics,
                \<lparr>content_docs = ps_store ps, collection_metrics_latest = Some metrics,
                 last_collection_run_state = Some metrics\<rparr>)))"

text \<open>
  The new items of a list, in arrival order: those whose id is neither among the ids
  \<open>seen\<close> nor that of an earlier item of the list.
\<close>

fun fresh_items :: "string list \<Rightarrow> collected_item list \<Rightarrow> collected_item list" where
  "fresh_items seen [] = []"
| "fresh_items seen (x # xs) =
     (if docId x \<in> set seen then fresh_items seen xs
      else x # fresh_items (docId x # seen) xs)"

text \<open>The number of new items a live run reports.\<close>

fun report_new_items :: "run_report \<Rightarrow> nat option" where
  "report_new_items (DryRunReport a s n d e) = None"
| "report_new_items (CompleteReport m) = Some (m_newItemsAdded m)"

text \<open>The entry of the error list for a failed result, and the document written for an item.\<close>

definition error_entry :: "fetch_result \<Rightarrow> string \<times> string" where
  "error_entry r = (fr_source r, or_else (fr_error r) ''Unknown error'')"

definition stored_entry :: "int \<Rightarrow> collected_item \<Rightarrow> string \<times> content_record" where
  "stored_entry now it = (docId it, (item_data it)\<lparr>createdAt := Some now\<rparr>)"

text \<open>What a report says of the sources.\<close>

fun report_feedsAttempted :: "run_report \<Rightarrow> nat" where
  "report_feedsAttempted (DryRunReport a s n d e) = a"
| "report_feedsAttempted (CompleteReport m) = m_feedsAttempted m"

fun report_feedsSucceeded :: "run_report \<Rightarrow> nat" where
  "report_feedsSucceeded (DryRunReport a s n d e) = s"
| "report_feedsSucceeded (CompleteReport m) = m_feedsSucceeded m"

fun report_errors :: "run_report \<Rightarrow> (string \<times> string) list" where
  "report_errors (DryRunReport a s n d e) = e"
| "report_errors (CompleteReport m) = m_errors m"

fun report_itemsFound :: "run_report \<Rightarrow> nat option" where
  "report_itemsFound (DryRunReport a s n d e) = Some n"
| "report_itemsFound (CompleteReport m) = None"

text \<open>The state in which the persisting loop of a live run starts.\<close>

definition persist_start :: "content_store \<Rightarrow> persist_state" where
  "persist_start s = \<lparr>ps_store = s, newItemsAdded = 0, existingItems = 0, itemsToSync = []\<rparr>"

text \<open>
  Sample runs: three items with distinct ids from one working feed, one failing feed,
  an API fetcher without key, and a cap of two new items.
\<close>

definition sample_record :: content_record where
  "sample_record = \<lparr>title = ''T'', excerpt = ''E'', plain_text = ''E'', tags = [''news''],
     publishedAt = DateAt 0, source = ''http://x/feed'', url = ''http://x/1'',
     license = Some ''rss'', contentType = ''article'', important = False, createdAt = None\<rparr>"

definition three_items :: "collected_item list" where
  "three_items = [\<lparr>docId = ''a'', item_data = sample_record\<rparr>,
                  \<lparr>docId = ''b'', item_data = sample_record\<rparr>,
                  \<lparr>docId = ''c'', item_data = sample_record\<rparr>]"

definition sample_fetchers :: "(string \<times> fetcher_outcome) list" where
  "sample_fetchers =
     [(''news'', ResultList
         [\<lparr>success = True, fr_source = ''http://x/feed'', fr_error = None, fr_items = three_items\<rparr>,
          \<lparr>success = False, fr_source = ''http://y/feed'', fr_error = Some ''timeout'', fr_items = []\<rparr>]),
      (''newsapi'', SingleResult
         \<lparr>success = False, fr_source = ''NewsAPI'', fr_error = Some ''API key not configured'',
          fr_items = []\<rparr>)]"

definition sample_env :: run_env where
  "sample_env = \<lparr>max_new_items = 2, fetchers = sample_fetchers, io_of = (\<lambda>i. IoOk),
                 gorse_accepts = True, started = 10, finished = 20\<rparr>"

definition empty_db :: collector_db where
  "empty_db = \<lparr>content_docs = [], collection_metrics_latest = None,
               last_collection_run_state = None\<rparr>"

section \<open>Rate limiter (\<open>RateLimiter.throttle\<close>)\<close>

text \<open>
  \<open>while (queue.length && queue[0] < now - 1000) queue.shift()\<close>, on the time stamps of
  one host in milliseconds.
\<close>

fun evict :: "int \<Rightarrow> int list \<Rightarrow> int list" where
  "evict now [] = []"
| "evict now (t # ts) = (if t < now - 1000 then evict now ts else t # ts)"

text \<open>
  How one pass through the body of \<open>throttle\<close> ends: the time stamp is pushed and the
  caller proceeds, or the caller sleeps for a delay and calls \<open>throttle\<close> again. The
  delay is \<open>1000 - (now - queue[0]) + 10\<close>; with an empty queue \<open>queue[0]\<close> is undefined
  and the delay is not a number (\<open>None\<close>).
\<close>

datatype throttle_step = Proceed | WaitFor "int option"

definition throttle_attempt :: "nat \<Rightarrow> int \<Rightarrow> int list \<Rightarrow> throttle_step \<times> int list" where
  "throttle_attempt maxPerSecond now queue =
     (let q = evict now queue
      in if length q \<ge> maxPerSecond
         then (WaitFor (case q of [] \<Rightarrow> None
                        | oldestTimestamp # rest \<Rightarrow> Some (1000 - (now - oldestTimestamp) + 10)), q)
         else (Proceed, q @ [now]))"

text \<open>
  The same pass on the limiter's map \<open>hostQueues\<close>: a host not yet known gets an empty
  queue first.
\<close>

definition throttle_host ::
  "nat \<Rightarrow> int \<Rightarrow> string \<Rightarrow> (string \<rightharpoonup> int list) \<Rightarrow> throttle_step \<times> (string \<rightharpoonup> int list)" where
  "throttle_host maxPerSecond now host hostQueues =
     (case throttle_attempt maxPerSecond now
             (case hostQueues host of None \<Rightarrow> [] | Some q \<Rightarrow> q) of
        (step, q') \<Rightarrow> (step, hostQueues(host \<mapsto> q')))"

text \<open>
  The timer: \<open>setTimeout\<close> takes a delay that is not a number or is below 1 as 1
  millisecond.
\<close>

definition timer_delay :: "int option \<Rightarrow> int" where
  "timer_delay d = (case d of None \<Rightarrow> 1 | Some ms \<Rightarrow> max 1 ms)"

text \<open>
  A whole call of \<open>throttle(host)\<close> by a caller that is alone on the limiter while it
  waits: pass, sleep, pass again. The timer of the \<open>k\<close>-th sleep fires \<open>lag k\<close>
  milliseconds late. The call may go on for ever, so the model counts passes down from
  \<open>fuel\<close>; it returns the time at which the caller proceeds and the map then.
\<close>

fun throttle ::
  "nat \<Rightarrow> nat \<Rightarrow> (nat \<Rightarrow> nat) \<Rightarrow> nat \<Rightarrow> int \<Rightarrow> string \<Rightarrow> (string \<rightharpoonup> int list)
     \<Rightarrow> (int \<times> (string \<rightharpoonup> int list)) option" where
  "throttle 0 maxPerSecond lag k now host hostQueues = None"
| "throttle (Suc fuel) maxPerSecond lag k now host hostQueues =
     (case throttle_host maxPerSecond now host hostQueues of
        (Proceed, hq) \<Rightarrow> Some (now, hq)
      | (WaitFor d, hq) \<Rightarrow>
          throttle fuel maxPerSecond lag (Suc k) (now + timer_delay d + int (lag k)) host hq)"

text \<open>
  The limiter under any number of callers: between two suspensions a pass runs alone, so
  a run of the process is a sequence of passes, each for a host at a clock reading. The
  run yields the map and, host by host, the time stamps at which callers proceeded.
\<close>

fun run_passes ::
  "nat \<Rightarrow> (string \<times> int) list \<Rightarrow> (string \<rightharpoonup> int list) \<times> (string \<times> int) list
     \<Rightarrow> (string \<rightharpoonup> int list) \<times> (string \<times> int) list" where
  "run_passes maxPerSecond [] st = st"
| "run_passes maxPerSecond ((host, now) # rest) (hq, granted) =
     (case throttle_host maxPerSecond now host hq of
        (Proceed, hq') \<Rightarrow> run_passes maxPerSecond rest (hq', granted @ [(host, now)])
      | (WaitFor d, hq') \<Rightarrow> run_passes maxPerSecond rest (hq', granted))"

text \<open>The queue of a host, empty when the host is not known.\<close>

definition queue_of :: "(string \<rightharpoonup> int list) \<Rightarrow> string \<Rightarrow> int list" where
  "queue_of hq host = (case hq host of None \<Rightarrow> [] | Some q \<Rightarrow> q)"

text \<open>The number of requests to a host that proceeded within the second from \<open>a\<close> on.\<close>

definition granted_within :: "(string \<times> int) list \<Rightarrow> string \<Rightarrow> int \<Rightarrow> nat" where
  "granted_within granted host a =
     length (filter (\<lambda>g. fst g = host \<and> a \<le> snd g \<and> snd g \<le> a + 1000) granted)"

text \<open>The time stamps at which requests to a host proceeded, in order.\<close>

definition grants_of :: "(string \<times> int) list \<Rightarrow> string \<Rightarrow> int list" where
  "grants_of granted host = map snd (filter (\<lambda>g. fst g = host) granted)"

text \<open>
  The invariant of the limiter at a clock reading \<open>T\<close>: for every host the requests that
  proceeded are in order of time; the queue holds exactly those of them that are at most
  a second older than the host's last pass, which was not after \<open>T\<close>; and no stretch of a
  second holds more than \<open>m\<close> of them.
\<close>

definition limiter_inv ::
  "nat \<Rightarrow> int \<Rightarrow> (string \<rightharpoonup> int list) \<Rightarrow> (string \<times> int) list \<Rightarrow> bool" where
  "limiter_inv m T hq granted =
     (\<forall>h. sorted (grants_of granted h) \<and>
          (\<exists>Th. Th \<le> T \<and> (\<forall>t \<in> set (grants_of granted h). t \<le> Th) \<and>
                queue_of hq h = filter (\<lambda>t. Th - 1000 \<le> t) (grants_of granted h)) \<and>
          (\<forall>a. length (filter (\<lambda>t. a \<le> t \<and> t \<le> a + 1000) (grants_of granted h)) \<le> m))"

text \<open>Fifteen passes for one host at the same instant.\<close>

definition fifteen_at_once :: "(string \<times> int) list" where
  "fifteen_at_once = replicate 15 (''h'', 0)"

section \<open>Verification\<close>

subsection \<open>Retry with backoff\<close>


lemma retry_loop_skip:
  "i \<le> k \<Longrightarrow> k \<le> n \<Longrightarrow> (\<forall>j. i \<le> j \<and> j < k \<longrightarrow> (\<exists>e. fn j = Inl e \<and> retryable e)) \<Longrightarrow>
   retry_loop fn n i slept = retry_loop fn n k (slept @ map (\<lambda>j. 2 ^ j * 1000) [i..<k])"
proof (induction "k - i" arbitrary: i slept)
  case 0
  then show ?case by simp
next
  case (Suc d)
  then have lt: "i < k" and "i < n" by auto
  from Suc.prems(3) lt obtain e where e: "fn i = Inl e" "retryable e" by blast
  have step: "retry_loop fn n i slept = retry_loop fn n (Suc i) (slept @ [2 ^ i * 1000])"
    using e \<open>i < n\<close> by (subst retry_loop.simps) simp
  have "retry_loop fn n (Suc i) (slept @ [2 ^ i * 1000]) =
        retry_loop fn n k ((slept @ [2 ^ i * 1000]) @ map (\<lambda>j. 2 ^ j * 1000) [Suc i..<k])"
    using Suc.hyps(2) Suc.prems lt by (intro Suc.hyps(1)) auto
  then show ?case using step lt by (simp add: upt_conv_Cons)
qed

lemma retryWithBackoff_upto:
  "k \<le> n \<Longrightarrow> (\<forall>j<k. \<exists>e. fn j = Inl e \<and> retryable e) \<Longrightarrow>
   retryWithBackoff fn n = retry_loop fn n k (backoff_delays k)"
  unfolding retryWithBackoff_def backoff_delays_def
  using retry_loop_skip [of 0 k n fn "[]"] by simp

lemma not_retryable_max: "\<not> retryable max_retries_error"
  by (simp add: retryable_def error_status_def max_retries_error_def)

lemma retry_loop_calls_le: "i \<le> n \<Longrightarrow> calls (retry_loop fn n i slept) \<le> n"
proof (induction fn n i slept rule: retry_loop.induct)
  case (1 fn maxRetries i slept)
  then show ?case
    by (subst retry_loop.simps) (auto split: sum.splits)
qed

lemma retry_loop_retried:
  "i \<le> j \<Longrightarrow> Suc j < calls (retry_loop fn n i slept) \<Longrightarrow> \<exists>e. fn j = Inl e \<and> retryable e"
proof (induction fn n i slept rule: retry_loop.induct)
  case (1 fn maxRetries i slept)
  show ?case
  proof (cases "i < maxRetries")
    case False
    with "1.prems" show ?thesis by (subst (asm) retry_loop.simps) simp
  next
    case True
    show ?thesis
    proof (cases "fn i")
      case (Inr v)
      with True "1.prems" show ?thesis by (subst (asm) retry_loop.simps) simp
    next
      case (Inl e)
      show ?thesis
      proof (cases "retryable e")
        case False
        with Inl True "1.prems" show ?thesis by (subst (asm) retry_loop.simps) simp
      next
        case re: True
        have c: "calls (retry_loop fn maxRetries i slept) =
                 calls (retry_loop fn maxRetries (Suc i) (slept @ [2 ^ i * 1000]))"
          using Inl True re by (subst retry_loop.simps) simp
        show ?thesis
        proof (cases "j = i")
          case True
          with Inl re show ?thesis by blast
        next
          case False
          with "1.prems" have "Suc i \<le> j" by simp
          then show ?thesis using "1.IH" [OF True Inl re] "1.prems"(2) c by simp
        qed
      qed
    qed
  qed
qed

lemma retry_loop_sleeps:
  "slept = map (\<lambda>j. 2 ^ j * 1000) [0..<i] \<Longrightarrow>
   sleeps (retry_loop fn n i slept) = backoff_delays (length (sleeps (retry_loop fn n i slept)))"
proof (induction fn n i slept rule: retry_loop.induct)
  case (1 fn maxRetries i slept)
  have nxt: "slept @ [2 ^ i * 1000] = map (\<lambda>j. 2 ^ j * 1000) [0..<Suc i]"
    using "1.prems" by simp
  show ?case
    using "1.prems" "1.IH" nxt
    by (subst (1 2) retry_loop.simps) (auto split: sum.splits simp: backoff_delays_def)
qed

text \<open>
  Claim C9. \<open>retryWithBackoff fn n\<close> (the source's default is \<open>n = 3\<close>): the call that
  first fails with an error whose status is neither 429 nor 5xx ends the run with that
  very error, with no further call; the call that first returns ends it with the value;
  every earlier call failed with a retryable status and was followed by a sleep of
  \<open>2 ^ attempt\<close> seconds (attempts counted from 0); when all \<open>n\<close> calls fail with
  retryable statuses the run ends with the error \<open>Max retries exceeded\<close>, which carries
  no status and so differs from every retryable error. A further call is only ever made
  after a retryable failure, and never more than \<open>n\<close> calls are made.
\<close>

theorem retryWithBackoff_policy:
  fixes fn :: "nat \<Rightarrow> js_error + 'a"
  shows
  "(\<forall>k e. k < n \<and> fn k = Inl e \<and> \<not> retryable e \<and>
          (\<forall>j<k. \<exists>e'. fn j = Inl e' \<and> retryable e') \<longrightarrow>
      retryWithBackoff fn n =
        \<lparr>outcome = Thrown e, calls = Suc k, sleeps = backoff_delays k\<rparr>) \<and>
   (\<forall>k v. k < n \<and> fn k = Inr v \<and>
          (\<forall>j<k. \<exists>e'. fn j = Inl e' \<and> retryable e') \<longrightarrow>
      retryWithBackoff fn n =
        \<lparr>outcome = Returned v, calls = Suc k, sleeps = backoff_delays k\<rparr>) \<and>
   ((\<forall>j<n. \<exists>e'. fn j = Inl e' \<and> retryable e') \<longrightarrow>
      retryWithBackoff fn n =
        \<lparr>outcome = Thrown max_retries_error, calls = n, sleeps = backoff_delays n\<rparr>) \<and>
   (\<forall>e. retryable e \<longrightarrow> e \<noteq> max_retries_error) \<and>
   (\<forall>j. Suc j < calls (retryWithBackoff fn n) \<longrightarrow> (\<exists>e. fn j = Inl e \<and> retryable e)) \<and>
   calls (retryWithBackoff fn n) \<le> n \<and>
   sleeps (retryWithBackoff fn n) = backoff_delays (length (sleeps (retryWithBackoff fn n))) \<and>
   backoff_delays 3 = [1000, 2000, 4000]"
proof (intro conjI allI impI)
  fix k e
  assume a: "k < n \<and> fn k = Inl e \<and> \<not> retryable e \<and>
             (\<forall>j<k. \<exists>e'. fn j = Inl e' \<and> retryable e')"
  then have "retryWithBackoff fn n = retry_loop fn n k (backoff_delays k)"
    by (intro retryWithBackoff_upto) auto
  also have "\<dots> = \<lparr>outcome = Thrown e, calls = Suc k, sleeps = backoff_delays k\<rparr>"
    using a by (subst retry_loop.simps) simp
  finally show "retryWithBackoff fn n =
      \<lparr>outcome = Thrown e, calls = Suc k, sleeps = backoff_delays k\<rparr>" .
next
  fix k v
  assume a: "k < n \<and> fn k = Inr v \<and> (\<forall>j<k. \<exists>e'. fn j = Inl e' \<and> retryable e')"
  then have "retryWithBackoff fn n = retry_loop fn n k (backoff_delays k)"
    by (intro retryWithBackoff_upto) auto
  also have "\<dots> = \<lparr>outcome = Returned v, calls = Suc k, sleeps = backoff_delays k\<rparr>"
    using a by (subst retry_loop.simps) simp
  finally show "retryWithBackoff fn n =
      \<lparr>outcome = Returned v, calls = Suc k, sleeps = backoff_delays k\<rparr>" .
next
  assume a: "\<forall>j<n. \<exists>e'. fn j = Inl e' \<and> retryable e'"
  then have "retryWithBackoff fn n = retry_loop fn n n (backoff_delays n)"
    by (intro retryWithBackoff_upto) auto
  also have "\<dots> = \<lparr>outcome = Thrown max_retries_error, calls = n, sleeps = backoff_delays n\<rparr>"
    by (subst retry_loop.simps) simp
  finally show "retryWithBackoff fn n =
      \<lparr>outcome = Thrown max_retries_error, calls = n, sleeps = backoff_delays n\<rparr>" .
next
  fix e assume "retryable e"
  then show "e \<noteq> max_retries_error" using not_retryable_max by auto
next
  fix j assume "Suc j < calls (retryWithBackoff fn n)"
  then show "\<exists>e. fn j = Inl e \<and> retryable e"
    unfolding retryWithBackoff_def using retry_loop_retried [of 0 j fn n "[]"] by simp
next
  show "calls (retryWithBackoff fn n) \<le> n"
    unfolding retryWithBackoff_def by (rule retry_loop_calls_le) simp
next
  show "sleeps (retryWithBackoff fn n) = backoff_delays (length (sleeps (retryWithBackoff fn n)))"
    unfolding retryWithBackoff_def by (rule retry_loop_sleeps) simp
next
  show "backoff_delays 3 = [1000, 2000, 4000]"
    by (simp add: backoff_delays_def upt_rec numeral_3_eq_3)
qed

text \<open>
  The policy at concrete runs with three attempts: two 503 failures and then a value;
  a 404 on the first call; three 429 failures.
\<close>

theorem retryWithBackoff_policy_witness:
  "retryWithBackoff
     (\<lambda>i. if i < 2 then Inl \<lparr>message = ''HTTP 503'', status = Some 503, response_status = None\<rparr>
          else Inr (7::nat)) 3 =
     \<lparr>outcome = Returned 7, calls = 3, sleeps = [1000, 2000]\<rparr> \<and>
   retryWithBackoff
     (\<lambda>i. Inl \<lparr>message = ''HTTP 404'', status = Some 404, response_status = None\<rparr>
          :: js_error + nat) 3 =
     \<lparr>outcome = Thrown \<lparr>message = ''HTTP 404'', status = Some 404, response_status = None\<rparr>,
      calls = 1, sleeps = []\<rparr> \<and>
   retryWithBackoff
     (\<lambda>i. Inl \<lparr>message = ''busy'', status = None, response_status = Some 429\<rparr>
          :: js_error + nat) 3 =
     \<lparr>outcome = Thrown max_retries_error, calls = 3, sleeps = [1000, 2000, 4000]\<rparr>"
proof -
  let ?f1 = "\<lambda>i::nat. if i < 2
      then Inl \<lparr>message = ''HTTP 503'', status = Some 503, response_status = None\<rparr>
      else (Inr (7::nat) :: js_error + nat)"
  let ?f2 = "\<lambda>i::nat. (Inl \<lparr>message = ''HTTP 404'', status = Some 404, response_status = None\<rparr>
      :: js_error + nat)"
  let ?f3 = "\<lambda>i::nat. (Inl \<lparr>message = ''busy'', status = None, response_status = Some 429\<rparr>
      :: js_error + nat)"
  have d2: "backoff_delays 2 = [1000, 2000]" and d0: "backoff_delays 0 = []"
    by (simp_all add: backoff_delays_def upt_rec numeral_2_eq_2)
  have r503: "retryable \<lparr>message = ''HTTP 503'', status = Some 503, response_status = None\<rparr>"
    and r404: "\<not> retryable \<lparr>message = ''HTTP 404'', status = Some 404, response_status = None\<rparr>"
    and r429: "retryable \<lparr>message = ''busy'', status = None, response_status = Some 429\<rparr>"
    by (simp_all add: retryable_def error_status_def)
  have p1: "\<forall>k v. k < 3 \<and> ?f1 k = Inr v \<and> (\<forall>j<k. \<exists>e'. ?f1 j = Inl e' \<and> retryable e') \<longrightarrow>
      retryWithBackoff ?f1 3 = \<lparr>outcome = Returned v, calls = Suc k, sleeps = backoff_delays k\<rparr>"
    using retryWithBackoff_policy [of 3 ?f1] by blast
  have a1: "retryWithBackoff ?f1 3 = \<lparr>outcome = Returned 7, calls = 3, sleeps = [1000, 2000]\<rparr>"
    using p1 [rule_format, of 2 7] r503 d2 by simp
  have p2: "\<forall>k e. k < 3 \<and> ?f2 k = Inl e \<and> \<not> retryable e \<and>
          (\<forall>j<k. \<exists>e'. ?f2 j = Inl e' \<and> retryable e') \<longrightarrow>
      retryWithBackoff ?f2 3 = \<lparr>outcome = Thrown e, calls = Suc k, sleeps = backoff_delays k\<rparr>"
    using retryWithBackoff_policy [of 3 ?f2] by blast
  have a2: "retryWithBackoff ?f2 3 =
     \<lparr>outcome = Thrown \<lparr>message = ''HTTP 404'', status = Some 404, response_status = None\<rparr>,
      calls = 1, sleeps = []\<rparr>"
    using p2 [rule_format, of 0] r404 d0 by simp
  have p3: "(\<forall>j<3. \<exists>e'. ?f3 j = Inl e' \<and> retryable e') \<longrightarrow>
      retryWithBackoff ?f3 3 =
        \<lparr>outcome = Thrown max_retries_error, calls = 3, sleeps = backoff_delays 3\<rparr>"
    using retryWithBackoff_policy [of 3 ?f3] by blast
  have d3: "backoff_delays 3 = [1000, 2000, 4000]"
    by (simp add: backoff_delays_def upt_rec numeral_3_eq_3)
  have a3: "retryWithBackoff ?f3 3 =
     \<lparr>outcome = Thrown max_retries_error, calls = 3, sleeps = [1000, 2000, 4000]\<rparr>"
    using p3 r429 d3 by simp
  show ?thesis using a1 a2 a3 by blast
qed

subsection \<open>Content records\<close>

lemma length_extractPlainText: "length (extractPlainText h) \<le> 500"
  by (simp add: extractPlainText_def substring0_def)

lemma stripHTML_201: "stripHTML (replicate 201 CHR ''a'') = replicate 201 CHR ''a''"
  by code_simp

text \<open>
  Claim C2, as the code has it. A record built by \<open>normalizeContent\<close> has an excerpt of
  at most 200 characters, namely the first 200 of the stripped description; when its
  license is not \<open>public-domain\<close> its full text is that excerpt, and when it is
  \<open>public-domain\<close> its full text is the whole stripped description. A record built by
  \<open>parseFeed\<close> of the ingestion module has no license, an excerpt of at most 300
  characters and a full text of at most 500.
\<close>

theorem content_record_caps:
  "length (excerpt (normalizeContent now item src tgs lic ctype)) \<le> 200 \<and>
   excerpt (normalizeContent now item src tgs lic ctype) =
     substring0 200 (stripHTML (or_else (js_or (item_description item)
        (js_or (item_contentSnippet item) (item_summary item))) [])) \<and>
   license (normalizeContent now item src tgs lic ctype) = Some lic \<and>
   (lic \<noteq> ''public-domain'' \<longrightarrow>
      plain_text (normalizeContent now item src tgs lic ctype) =
        excerpt (normalizeContent now item src tgs lic ctype) \<and>
      length (plain_text (normalizeContent now item src tgs lic ctype)) \<le> 200) \<and>
   (lic = ''public-domain'' \<longrightarrow>
      plain_text (normalizeContent now item src tgs lic ctype) =
        stripHTML (or_else (js_or (item_description item)
          (js_or (item_contentSnippet item) (item_summary item))) [])) \<and>
   spec_excerpt_guard (normalizeContent now item src tgs lic ctype) \<and>
   length (excerpt (parseFeed_content now item feedUrl tgs)) \<le> 300 \<and>
   length (plain_text (parseFeed_content now item feedUrl tgs)) \<le> 500 \<and>
   license (parseFeed_content now item feedUrl tgs) = None"
  by (simp add: normalizeContent_def parseFeed_content_def spec_excerpt_guard_def Let_def
      substring0_def length_extractPlainText)

text \<open>
  The same entry normalised under the license \<open>rss\<close> and under \<open>public-domain\<close>: the
  first record stores the 200-character excerpt as full text, the second all 201
  characters.
\<close>

theorem content_record_caps_witness:
  "length (plain_text (normalizeContent 5 snippet_201_item ''s'' [''news''] ''rss'' ''article'')) \<le> 200 \<and>
   plain_text (normalizeContent 5 snippet_201_item ''s'' [''news''] ''rss'' ''article'') =
     excerpt (normalizeContent 5 snippet_201_item ''s'' [''news''] ''rss'' ''article'') \<and>
   plain_text (normalizeContent 5 snippet_201_item ''s'' [''news''] ''public-domain'' ''article'') =
     replicate 201 CHR ''a''"
proof -
  have ne: "''rss'' \<noteq> ''public-domain''" by simp
  have d: "or_else (js_or (item_description snippet_201_item)
      (js_or (item_contentSnippet snippet_201_item) (item_summary snippet_201_item))) [] =
      replicate 201 CHR ''a''"
    by (simp add: snippet_201_item_def or_else_def js_or_def)
  have a: "plain_text (normalizeContent 5 snippet_201_item ''s'' [''news''] ''rss'' ''article'') =
        excerpt (normalizeContent 5 snippet_201_item ''s'' [''news''] ''rss'' ''article'') \<and>
      length (plain_text (normalizeContent 5 snippet_201_item ''s'' [''news''] ''rss'' ''article'')) \<le> 200"
    using content_record_caps [of 5 snippet_201_item "''s''" "[''news'']" "''rss''" "''article''"] ne
    by blast
  have b: "plain_text (normalizeContent 5 snippet_201_item ''s'' [''news''] ''public-domain'' ''article'') =
      stripHTML (or_else (js_or (item_description snippet_201_item)
          (js_or (item_contentSnippet snippet_201_item) (item_summary snippet_201_item))) [])"
    using content_record_caps [of 5 snippet_201_item "''s''" "[''news'']" "''public-domain''" "''article''"]
    by blast
  have b': "plain_text (normalizeContent 5 snippet_201_item ''s'' [''news''] ''public-domain'' ''article'') =
      replicate 201 CHR ''a''"
    using b d stripHTML_201 by simp
  show ?thesis using a b' by blast
qed

text \<open>
  Claim C2 as stated fails on the ingestion module: for an entry with a 201-character
  snippet \<open>parseFeed\<close> stores an excerpt of 201 characters.
\<close>

theorem parseFeed_breaks_excerpt_guard:
  "\<not> spec_excerpt_guard (parseFeed_content 0 snippet_201_item ''http://x/feed'' [''news''])"
  by (simp add: spec_excerpt_guard_def parseFeed_content_def snippet_201_item_def Let_def
      substring0_def or_else_def js_or_def)

subsection \<open>Document identifiers\<close>


lemma toLowerChar_idem: "toLowerChar (toLowerChar c) = toLowerChar c"
proof -
  define n where "n = (of_char c :: nat)"
  have lt: "n < 256" by (simp add: n_def)
  show ?thesis
  proof (cases "(65 \<le> n \<and> n \<le> 90) \<or> (192 \<le> n \<and> n \<le> 222 \<and> n \<noteq> 215)")
    case False
    then have "toLowerChar c = c"
      unfolding toLowerChar_def Let_def n_def [symmetric] by auto
    then show ?thesis by simp
  next
    case True
    then have lc: "toLowerChar c = char_of (n + 32)"
      unfolding toLowerChar_def Let_def n_def [symmetric] by auto
    have m: "(n + 32) mod 256 = n + 32" using True by auto
    have oc: "(of_char (char_of (n + 32)) :: nat) = n + 32"
      using m by (simp add: of_char_of)
    have "toLowerChar (char_of (n + 32)) = char_of (n + 32)"
      unfolding toLowerChar_def Let_def oc using True by auto
    then show ?thesis using lc by simp
  qed
qed

lemma toLowerCase_idem: "toLowerCase (toLowerCase s) = toLowerCase s"
  by (simp add: toLowerCase_def toLowerChar_idem)

lemma toLowerCase_append: "toLowerCase (a @ b) = toLowerCase a @ toLowerCase b"
  by (simp add: toLowerCase_def)

lemma toLowerCase_http: "toLowerCase ''http://'' = ''http://''"
  and toLowerCase_https: "toLowerCase ''https://'' = ''https://''"
  and toLowerCase_slash: "toLowerCase ''/'' = ''/''"
  by (simp_all add: toLowerCase_def toLowerChar_def)

lemma strip_scheme_http: "strip_scheme (''http://'' @ s) = s"
  by (simp add: strip_scheme_def)

lemma strip_scheme_https: "strip_scheme (''https://'' @ s) = s"
  by (simp add: strip_scheme_def)

lemma normalize_url_scheme: "normalize_url (''http://'' @ r) = normalize_url (''https://'' @ r)"
  unfolding normalize_url_def toLowerCase_append toLowerCase_http toLowerCase_https
    strip_scheme_http strip_scheme_https ..

lemma strip_scheme_snoc:
  assumes "l \<noteq> ''http:/''" "l \<noteq> ''https:/''"
  shows "strip_scheme (l @ ''/'') = strip_scheme l @ ''/''"
proof -
  have p1: "prefix ''http://'' (l @ ''/'') \<longleftrightarrow> prefix ''http://'' l"
    using assms(1) prefix_snoc [of "''http://''" l "CHR ''/''"] by auto
  have p2: "prefix ''https://'' (l @ ''/'') \<longleftrightarrow> prefix ''https://'' l"
    using assms(2) prefix_snoc [of "''https://''" l "CHR ''/''"] by auto
  have d1: "prefix ''http://'' l \<Longrightarrow> drop 7 (l @ ''/'') = drop 7 l @ ''/''"
    by (auto simp: prefix_def)
  have d2: "prefix ''https://'' l \<Longrightarrow> drop 8 (l @ ''/'') = drop 8 l @ ''/''"
    by (auto simp: prefix_def)
  show ?thesis unfolding strip_scheme_def p1 p2 using d1 d2 by auto
qed

lemma strip_trailing_slash_snoc: "strip_trailing_slash (s @ ''/'') = s"
  by (simp add: strip_trailing_slash_def)

lemma normalize_url_trailing_slash:
  assumes "toLowerCase u \<noteq> ''http:/''" "toLowerCase u \<noteq> ''https:/''"
    and "strip_scheme (toLowerCase u) = [] \<or> last (strip_scheme (toLowerCase u)) \<noteq> CHR ''/''"
  shows "normalize_url (u @ ''/'') = normalize_url u"
proof -
  have "strip_trailing_slash (strip_scheme (toLowerCase u)) = strip_scheme (toLowerCase u)"
    using assms(3) by (auto simp: strip_trailing_slash_def)
  then show ?thesis
    unfolding normalize_url_def toLowerCase_append toLowerCase_slash
    using strip_scheme_snoc [OF assms(1,2)] strip_trailing_slash_snoc by simp
qed

lemma fill_char_agree:
  "list_all2 (\<lambda>a b. a = b \<or> (\<not> is_lower_alnum a \<and> \<not> is_lower_alnum b)) xs ys \<Longrightarrow>
   map fill_char xs = map fill_char ys"
  by (induction xs ys rule: list_all2_induct) (auto simp: fill_char_def)

lemma length_normalize_url: "length (normalize_url u) \<le> 100"
  by (simp add: normalize_url_def substring0_def)

text \<open>
  Claim C8. \<open>generateDocId\<close> depends on nothing but the digest function and the URL: it
  is the first 20 characters of the digest of the normalised URL, itself at most 100
  characters long; with a digest of 32 hexadecimal characters the id has exactly 20.
  URLs that normalise to the same string get the same id: URLs with the same
  lower-casing; the same remainder behind \<open>http://\<close> and behind \<open>https://\<close>; a URL
  and the same URL followed by one slash (when the URL, lower-cased and without its
  scheme, does not itself end in a slash and the added slash does not complete a
  scheme); URLs that, lower-cased and without scheme and final slash, differ only in
  which characters outside \<open>a-z0-9\<close> stand at a position.
\<close>

theorem generateDocId_deterministic:
  "generateDocId h u =
     substring0 20 (h (substring0 100
       (map fill_char (strip_trailing_slash (strip_scheme (toLowerCase u)))))) \<and>
   length (normalize_url u) \<le> 100 \<and>
   length (generateDocId h u) = min 20 (length (h (normalize_url u))) \<and>
   (normalize_url u = normalize_url v \<longrightarrow> generateDocId h u = generateDocId h v) \<and>
   (toLowerCase u = toLowerCase v \<longrightarrow> generateDocId h u = generateDocId h v) \<and>
   generateDocId h (''http://'' @ r) = generateDocId h (''https://'' @ r) \<and>
   (toLowerCase u \<noteq> ''http:/'' \<and> toLowerCase u \<noteq> ''https:/'' \<and>
    (strip_scheme (toLowerCase u) = [] \<or> last (strip_scheme (toLowerCase u)) \<noteq> CHR ''/'') \<longrightarrow>
      generateDocId h (u @ ''/'') = generateDocId h u) \<and>
   (list_all2 (\<lambda>a b. a = b \<or> (\<not> is_lower_alnum a \<and> \<not> is_lower_alnum b))
      (strip_trailing_slash (strip_scheme (toLowerCase u)))
      (strip_trailing_slash (strip_scheme (toLowerCase v))) \<longrightarrow>
      generateDocId h u = generateDocId h v)"
proof (intro conjI impI)
  show "generateDocId h u =
     substring0 20 (h (substring0 100
       (map fill_char (strip_trailing_slash (strip_scheme (toLowerCase u))))))"
    by (simp add: generateDocId_def normalize_url_def)
  show "length (normalize_url u) \<le> 100" by (rule length_normalize_url)
  show "length (generateDocId h u) = min 20 (length (h (normalize_url u)))"
    by (simp add: generateDocId_def substring0_def min.commute)
  show "generateDocId h u = generateDocId h v" if "normalize_url u = normalize_url v"
    using that by (simp add: generateDocId_def)
  show "generateDocId h u = generateDocId h v" if "toLowerCase u = toLowerCase v"
    using that by (simp add: generateDocId_def normalize_url_def)
  show "generateDocId h (''http://'' @ r) = generateDocId h (''https://'' @ r)"
    using normalize_url_scheme [of r] by (simp only: generateDocId_def)
  show "generateDocId h (u @ ''/'') = generateDocId h u"
    if "toLowerCase u \<noteq> ''http:/'' \<and> toLowerCase u \<noteq> ''https:/'' \<and>
        (strip_scheme (toLowerCase u) = [] \<or> last (strip_scheme (toLowerCase u)) \<noteq> CHR ''/'')"
  proof -
    have "normalize_url (u @ ''/'') = normalize_url u"
      using that by (intro normalize_url_trailing_slash) blast+
    then show ?thesis by (simp add: generateDocId_def)
  qed
  show "generateDocId h u = generateDocId h v"
    if "list_all2 (\<lambda>a b. a = b \<or> (\<not> is_lower_alnum a \<and> \<not> is_lower_alnum b))
      (strip_trailing_slash (strip_scheme (toLowerCase u)))
      (strip_trailing_slash (strip_scheme (toLowerCase v)))"
    using fill_char_agree [OF that] by (simp add: generateDocId_def normalize_url_def)
qed

text \<open>
  Under every digest function, a URL in capitals with a final slash, the same URL in
  small letters without it, and the URL with other punctuation get one id.
\<close>

theorem generateDocId_deterministic_witness:
  "\<forall>h. generateDocId h ''HTTP://Example.com/A/'' = generateDocId h ''http://example.com/a'' \<and>
       generateDocId h ''example.com/a'' = generateDocId h ''example.com/a/'' \<and>
       generateDocId h ''example.com/a'' = generateDocId h ''example_com?a''"
proof (intro allI conjI)
  fix h :: "string \<Rightarrow> string"
  have n1: "normalize_url ''HTTP://Example.com/A/'' = normalize_url ''http://example.com/a''"
    by code_simp
  show "generateDocId h ''HTTP://Example.com/A/'' = generateDocId h ''http://example.com/a''"
    using generateDocId_deterministic [of h "''HTTP://Example.com/A/''" "''http://example.com/a''"] n1
    by blast
  have l: "toLowerCase ''example.com/a'' = ''example.com/a''" by code_simp
  have s: "strip_scheme ''example.com/a'' = ''example.com/a''" by code_simp
  have c: "toLowerCase ''example.com/a'' \<noteq> ''http:/'' \<and> toLowerCase ''example.com/a'' \<noteq> ''https:/'' \<and>
      (strip_scheme (toLowerCase ''example.com/a'') = [] \<or>
       last (strip_scheme (toLowerCase ''example.com/a'')) \<noteq> CHR ''/'')"
    unfolding l s by simp
  have "generateDocId h (''example.com/a'' @ ''/'') = generateDocId h ''example.com/a''"
    using generateDocId_deterministic [of h "''example.com/a''" "''example.com/a''" "[]"] c
    by blast
  then show "generateDocId h ''example.com/a'' = generateDocId h ''example.com/a/''" by simp
  have n3: "normalize_url ''example.com/a'' = normalize_url ''example_com?a''" by code_simp
  show "generateDocId h ''example.com/a'' = generateDocId h ''example_com?a''"
    using generateDocId_deterministic [of h "''example.com/a''" "''example_com?a''"] n3
    by blast
qed

subsection \<open>Relevance filter\<close>

lemma partial_pair_refl_lower: "partial_pair tag (toLowerCase tag)"
  by (simp add: partial_pair_def str_includes_def toLowerCase_idem)

lemma hasPartialMatch_iff:
  "hasPartialMatch ui tgs \<longleftrightarrow>
   (\<exists>tag \<in> set tgs. \<exists>interest \<in> set ui.
       sublist (toLowerCase interest) (toLowerCase tag) \<or>
       sublist (toLowerCase tag) (toLowerCase interest))"
  by (auto simp: hasPartialMatch_def list_ex_iff partial_pair_def str_includes_def)

lemma hasExactMatch_imp_partial: "hasExactMatch ui tgs \<Longrightarrow> hasPartialMatch ui tgs"
  unfolding hasExactMatch_def hasPartialMatch_def list_ex_iff
  using partial_pair_refl_lower by blast

lemma relevant_iff_spec: "relevant ui tgs = spec_relevant ui tgs"
proof -
  have e: "(\<exists>tag \<in> set tgs. \<exists>interest \<in> set ui. toLowerCase tag = toLowerCase interest) \<Longrightarrow>
           hasPartialMatch ui tgs"
    unfolding hasPartialMatch_iff by (metis sublist_order.order_refl)
  show ?thesis
    unfolding relevant_def spec_relevant_def
    using e hasExactMatch_imp_partial [of ui tgs] hasPartialMatch_iff [of ui tgs] by blast
qed

lemma ranker_items_ids:
  "map contentId (ranker_items store ui recs) =
   map rec_id (filter (\<lambda>r. case content store (rec_id r) of
                             None \<Rightarrow> False
                           | Some d \<Rightarrow> relevant ui (case doc_tags d of Some t \<Rightarrow> t | None \<Rightarrow> []))
                 recs)"
  by (induction recs) (auto split: option.splits)

text \<open>
  Claim C6, with its example as the code decides it. Of the ranker's candidates the
  resolver keeps, in order, exactly those that resolve to a stored document and whose
  tags are relevant to the user's interests: there are no interests, or a tag equals an
  interest up to letter case, or of a tag and an interest one contains the other up to
  letter case. With the interests technology and design, a candidate tagged
  \<open>technology\<close> or \<open>tech\<close> is kept, and candidates tagged \<open>tech-news\<close> or
  \<open>poetry\<close> are dropped: neither of \<open>tech-news\<close> and \<open>technology\<close> contains the
  other.
\<close>

theorem relevance_filter:
  "map contentId (ranker_items store ui recs) =
     map rec_id (filter (\<lambda>r. case content store (rec_id r) of
                               None \<Rightarrow> False
                             | Some d \<Rightarrow> spec_relevant ui (tags_or_empty d)) recs) \<and>
   relevant ui tgs = spec_relevant ui tgs \<and>
   relevant [''technology'', ''design''] [''technology''] \<and>
   relevant [''technology'', ''design''] [''tech''] \<and>
   \<not> relevant [''technology'', ''design''] [''tech-news''] \<and>
   \<not> relevant [''technology'', ''design''] [''poetry'']"
proof (intro conjI)
  show "map contentId (ranker_items store ui recs) =
     map rec_id (filter (\<lambda>r. case content store (rec_id r) of
                               None \<Rightarrow> False
                             | Some d \<Rightarrow> spec_relevant ui (tags_or_empty d)) recs)"
    using ranker_items_ids [of store ui recs] by (simp only: relevant_iff_spec)
  show "relevant ui tgs = spec_relevant ui tgs" by (rule relevant_iff_spec)
  show "relevant [''technology'', ''design''] [''technology'']" by code_simp
  show "relevant [''technology'', ''design''] [''tech'']" by code_simp
  show "\<not> relevant [''technology'', ''design''] [''tech-news'']" by code_simp
  show "\<not> relevant [''technology'', ''design''] [''poetry'']" by code_simp
qed

text \<open>The filter on the three candidates of the example: only the first is kept.\<close>

theorem relevance_filter_witness:
  "map contentId (ranker_items relevance_db [''technology'', ''design'']
       [RecId ''a'', RecId ''b'', RecId ''c'']) = [''a'']"
proof -
  have "map contentId (ranker_items relevance_db [''technology'', ''design'']
       [RecId ''a'', RecId ''b'', RecId ''c'']) =
     map rec_id (filter (\<lambda>r. case content relevance_db (rec_id r) of
                               None \<Rightarrow> False
                             | Some d \<Rightarrow> spec_relevant [''technology'', ''design''] (tags_or_empty d))
       [RecId ''a'', RecId ''b'', RecId ''c''])"
    using relevance_filter [of relevance_db "[''technology'', ''design'']"
        "[RecId ''a'', RecId ''b'', RecId ''c'']"] by blast
  also have "\<dots> = map rec_id (filter (\<lambda>r. case content relevance_db (rec_id r) of
                               None \<Rightarrow> False
                             | Some d \<Rightarrow> relevant [''technology'', ''design''] (tags_or_empty d))
       [RecId ''a'', RecId ''b'', RecId ''c''])"
    by (simp only: relevant_iff_spec)
  also have "\<dots> = [''a'']" by code_simp
  finally show ?thesis .
qed

text \<open>
  Claim C6 as stated fails in its example: the resolver, asked for the three candidates
  of the example, returns the one tagged \<open>technology\<close> only; the candidate tagged
  \<open>tech-news\<close> is dropped.
\<close>

theorem tech_news_candidate_dropped:
  "map contentId (items (fst (getRecommendationsForUser relevance_db
     (Some [RecId ''a'', RecId ''b'', RecId ''c'']) 0 ''u'' 20 initial_state))) = [''a'']"
  by code_simp

subsection \<open>Fallback scorer\<close>

lemma tagMatchCount_le_partialMatches: "tagMatchCount ui tgs \<le> partialMatches ui tgs"
proof -
  have imp: "tag \<in> set ui \<Longrightarrow> list_ex (\<lambda>interest. partial_pair tag interest) ui" for tag
    unfolding list_ex_iff by (auto simp: partial_pair_def str_includes_def intro!: bexI [of _ tag])
  show ?thesis
    unfolding tagMatchCount_def partialMatches_def
    by (induction tgs) (auto dest: imp)
qed

lemma partialMatches_set:
  "partialMatches ui tgs =
   length (filter (\<lambda>tag. \<exists>interest \<in> set ui.
       sublist (toLowerCase interest) (toLowerCase tag) \<or>
       sublist (toLowerCase tag) (toLowerCase interest)) tgs)"
  by (simp add: partialMatches_def list_ex_iff partial_pair_def str_includes_def)

lemma recencyBoost_nonneg: "0 \<le> recencyBoost now p"
  by (simp add: recencyBoost_def)

lemma recencyBoost_le5: "p \<le> now \<Longrightarrow> recencyBoost now p \<le> 5"
  by (simp add: recencyBoost_def)

lemma recencyBoost_today: "recencyBoost now now = 5"
  by (simp add: recencyBoost_def)

lemma recencyBoost_30_days: "recencyBoost now (now - 30 * 86400000) = 5 / 7"
  by (simp add: recencyBoost_def)

lemma fallback_score_lower:
  "of_nat (tagMatchCount ui (case doc_tags d of Some t \<Rightarrow> t | None \<Rightarrow> []) * 10
          + partialMatches ui (case doc_tags d of Some t \<Rightarrow> t | None \<Rightarrow> []) * 5) * (8 / 10)
   \<le> fallback_score ui now d"
proof -
  define tgs where "tgs = (case doc_tags d of Some t \<Rightarrow> t | None \<Rightarrow> [])"
  define p where "p = (case doc_publishedAt d of Some p \<Rightarrow> p | None \<Rightarrow> now)"
  define A :: rat where "A = of_nat (tagMatchCount ui tgs * 10 + partialMatches ui tgs * 5)"
  define B :: rat where "B = recencyBoost now p + (if doc_important d then 3 else 0)"
  define F :: rat where "F = (if doc_contentType d = ''article'' then 1 else 8 / 10)"
  have s: "fallback_score ui now d = (A + B) * F"
    by (simp add: fallback_score_def Let_def A_def B_def F_def tgs_def p_def algebra_simps)
  have A0: "0 \<le> A" by (simp add: A_def)
  have B0: "0 \<le> B" using recencyBoost_nonneg [of now p] by (simp add: B_def)
  have F8: "8 / 10 \<le> F" by (simp add: F_def)
  have "A * (8 / 10) \<le> (A + B) * (8 / 10)" using B0 by simp
  also have "\<dots> \<le> (A + B) * F" using A0 B0 F8 by (intro mult_left_mono) auto
  finally show ?thesis unfolding s A_def tgs_def .
qed

lemma fallback_score_upper:
  assumes "(case doc_publishedAt d of Some p \<Rightarrow> p | None \<Rightarrow> now) \<le> now"
  shows "fallback_score ui now d \<le>
     of_nat (tagMatchCount ui (case doc_tags d of Some t \<Rightarrow> t | None \<Rightarrow> []) * 10
          + partialMatches ui (case doc_tags d of Some t \<Rightarrow> t | None \<Rightarrow> []) * 5) + 8"
proof -
  define tgs where "tgs = (case doc_tags d of Some t \<Rightarrow> t | None \<Rightarrow> [])"
  define p where "p = (case doc_publishedAt d of Some p \<Rightarrow> p | None \<Rightarrow> now)"
  define A :: rat where "A = of_nat (tagMatchCount ui tgs * 10 + partialMatches ui tgs * 5)"
  define B :: rat where "B = recencyBoost now p + (if doc_important d then 3 else 0)"
  define F :: rat where "F = (if doc_contentType d = ''article'' then 1 else 8 / 10)"
  have s: "fallback_score ui now d = (A + B) * F"
    by (simp add: fallback_score_def Let_def A_def B_def F_def tgs_def p_def algebra_simps)
  have A0: "0 \<le> A" by (simp add: A_def)
  have B0: "0 \<le> B" using recencyBoost_nonneg [of now p] by (simp add: B_def)
  have B8: "B \<le> 8" using recencyBoost_le5 [of p now] assms by (simp add: B_def p_def)
  have F1: "F \<le> 1" by (simp add: F_def)
  have "(A + B) * F \<le> (A + B) * 1" using A0 B0 F1 by (intro mult_left_mono) auto
  also have "\<dots> \<le> A + 8" using B8 by simp
  finally show ?thesis unfolding s A_def tgs_def .
qed

lemma fallback_score_order:
  assumes "tagMatchCount ui (case doc_tags d1 of Some t \<Rightarrow> t | None \<Rightarrow> []) = 2"
    and "tagMatchCount ui (case doc_tags d2 of Some t \<Rightarrow> t | None \<Rightarrow> []) = 0"
    and "partialMatches ui (case doc_tags d2 of Some t \<Rightarrow> t | None \<Rightarrow> []) = 1"
    and "(case doc_publishedAt d2 of Some p \<Rightarrow> p | None \<Rightarrow> now) \<le> now"
  shows "fallback_score ui now d2 < fallback_score ui now d1"
proof -
  have p1: "2 \<le> partialMatches ui (case doc_tags d1 of Some t \<Rightarrow> t | None \<Rightarrow> [])"
    using tagMatchCount_le_partialMatches [of ui "case doc_tags d1 of Some t \<Rightarrow> t | None \<Rightarrow> []"] assms(1)
    by simp
  have n: "2 * 10 + 2 * 5 \<le>
        tagMatchCount ui (case doc_tags d1 of Some t \<Rightarrow> t | None \<Rightarrow> []) * 10
          + partialMatches ui (case doc_tags d1 of Some t \<Rightarrow> t | None \<Rightarrow> []) * 5"
    using p1 assms(1) by simp
  have "(of_nat (2 * 10 + 2 * 5) :: rat) * (8 / 10) \<le>
        of_nat (tagMatchCount ui (case doc_tags d1 of Some t \<Rightarrow> t | None \<Rightarrow> []) * 10
          + partialMatches ui (case doc_tags d1 of Some t \<Rightarrow> t | None \<Rightarrow> []) * 5) * (8 / 10)"
  proof (rule mult_right_mono)
    show "(of_nat (2 * 10 + 2 * 5) :: rat) \<le>
        of_nat (tagMatchCount ui (case doc_tags d1 of Some t \<Rightarrow> t | None \<Rightarrow> []) * 10
          + partialMatches ui (case doc_tags d1 of Some t \<Rightarrow> t | None \<Rightarrow> []) * 5)"
      using n by (rule of_nat_mono)
    show "(0::rat) \<le> 8 / 10" by simp
  qed
  then have lo: "24 \<le> fallback_score ui now d1"
    using fallback_score_lower [of ui d1 now] by simp
  have hi: "fallback_score ui now d2 \<le> 13"
    using fallback_score_upper [OF assms(4), of ui] assms(2,3) by simp
  show ?thesis using lo hi by simp
qed

text \<open>
  Claim C1. The claim's score is \<open>(exact * 10 + partial * 5 + recency + importance) *
  factor\<close> with the partial matches counted without the pairs already counted as exact,
  and the repository's own notes give examples to the same effect (two exact tags,
  recent: \<open>20 + 5 = 25\<close>). The code does not exclude them: a tag found verbatim among
  the interests contains that interest, so it is counted again in \<open>partialMatches\<close>
  (lemma \<open>tagMatchCount_le_partialMatches\<close>) and earns 15 points instead of 10. For the
  article tagged \<open>technology\<close> and \<open>design\<close>, published at the instant of scoring,
  and a user interested in both, the code counts 2 exact and 2 partial matches and
  scores 35 where the claim's formula gives 25; for the article tagged \<open>technology\<close>
  alone and the interest \<open>technology\<close> it scores 20 where the formula gives 15. At
  these inputs every intermediate value is a small integer, so the floating-point
  arithmetic of the code yields the same numbers as the exact arithmetic of the model.
\<close>

theorem exact_tag_scored_twice:
  "tagMatchCount [''technology'', ''design''] (tags_or_empty doc_today) = 2 \<and>
   partialMatches [''technology'', ''design''] (tags_or_empty doc_today) = 2 \<and>
   spec_partialMatches [''technology'', ''design''] (tags_or_empty doc_today) = 0 \<and>
   fallback_score [''technology'', ''design''] day_30 doc_today = 35 \<and>
   spec_score [''technology'', ''design''] day_30 doc_today = 25 \<and>
   fallback_score [''technology''] 0 sample_doc = 20 \<and>
   spec_score [''technology''] 0 sample_doc = 15"
  by code_simp

subsection \<open>Cache and request throttle of the resolver\<close>

lemma getCached_fresh:
  "cache st (getCacheKey uid count) = Some c \<Longrightarrow> now - timestamp c \<le> CACHE_TTL_MS \<Longrightarrow>
   getCachedRecommendations now uid count st = (Some (data c), st)"
  by (simp add: getCachedRecommendations_def Let_def)

lemma getCached_none:
  "cache st (getCacheKey uid count) = None \<or>
   (\<exists>c. cache st (getCacheKey uid count) = Some c \<and> CACHE_TTL_MS < now - timestamp c) \<Longrightarrow>
   getCachedRecommendations now uid count st =
     (None, st\<lparr>cache := (cache st)(getCacheKey uid count := None)\<rparr>)"
  by (auto simp: getCachedRecommendations_def Let_def fun_upd_idem)

lemma resolve_fresh:
  "cache st (getCacheKey uid count) = Some c \<Longrightarrow> now - timestamp c \<le> CACHE_TTL_MS \<Longrightarrow>
   getRecommendationsForUser store gorse now uid count st = ((data c)\<lparr>cached := True\<rparr>, st)"
  by (simp add: getRecommendationsForUser_def getCached_fresh)

lemma checkRateLimit_refuses:
  "rateLimitMap st uid = Some t \<Longrightarrow> t \<noteq> 0 \<Longrightarrow> now - t < RATE_LIMIT_MS \<Longrightarrow>
   checkRateLimit now uid st = (False, st)"
  by (simp add: checkRateLimit_def)

lemma checkRateLimit_admits:
  "rateLimitMap st uid = None \<or> (\<exists>t. rateLimitMap st uid = Some t \<and> (t = 0 \<or> RATE_LIMIT_MS \<le> now - t)) \<Longrightarrow>
   checkRateLimit now uid st = (True, st\<lparr>rateLimitMap := (rateLimitMap st)(uid \<mapsto> now)\<rparr>)"
  by (auto simp: checkRateLimit_def)

lemma endpoint_refuses:
  "uid \<noteq> [] \<Longrightarrow> rateLimitMap st uid = Some t \<Longrightarrow> t \<noteq> 0 \<Longrightarrow> now - t < RATE_LIMIT_MS \<Longrightarrow>
   recommendations_endpoint store gorse now (Some uid) count st = (RateLimitExceeded, st)"
  by (simp add: recommendations_endpoint_def checkRateLimit_refuses)

lemma endpoint_cached:
  assumes "uid \<noteq> []"
    and "rateLimitMap st uid = None \<or> (\<exists>t. rateLimitMap st uid = Some t \<and> (t = 0 \<or> RATE_LIMIT_MS \<le> now - t))"
    and "cache st (getCacheKey uid count) = Some c" and "now - timestamp c \<le> CACHE_TTL_MS"
  shows "recommendations_endpoint store gorse now (Some uid) count st =
     (OkJson ((data c)\<lparr>cached := True\<rparr>), st\<lparr>rateLimitMap := (rateLimitMap st)(uid \<mapsto> now)\<rparr>)"
proof -
  let ?st1 = "st\<lparr>rateLimitMap := (rateLimitMap st)(uid \<mapsto> now)\<rparr>"
  have "cache ?st1 (getCacheKey uid count) = Some c" using assms(3) by simp
  from resolve_fresh [OF this assms(4)]
  show ?thesis
    using assms(1) checkRateLimit_admits [OF assms(2)]
    by (simp add: recommendations_endpoint_def)
qed

lemma endpoint_rate_limited_iff:
  "fst (recommendations_endpoint store gorse now (Some uid) count st) = RateLimitExceeded \<longleftrightarrow>
   uid \<noteq> [] \<and> (\<exists>t. rateLimitMap st uid = Some t \<and> t \<noteq> 0 \<and> now - t < RATE_LIMIT_MS)"
  by (auto simp: recommendations_endpoint_def checkRateLimit_def split: option.splits prod.splits if_splits)

lemma fallback_source:
  "result_source (getFallbackRecommendations store now uid count) = ''fallback'' \<and>
   \<not> cached (getFallbackRecommendations store now uid count)"
  by (simp add: getFallbackRecommendations_def fallback_empty_def Let_def split: option.splits)

lemma resolve_ranker_down:
  assumes "gorse = None \<or> (\<exists>recs. gorse = Some recs \<and> slice0 count recs = [])"
    and "cache st (getCacheKey uid count) = None \<or>
         (\<exists>c. cache st (getCacheKey uid count) = Some c \<and> CACHE_TTL_MS < now - timestamp c)"
  shows "getRecommendationsForUser store gorse now uid count st =
     (getFallbackRecommendations store now uid count,
      st\<lparr>cache := (cache st)(getCacheKey uid count := None)\<rparr>)"
  using assms(1) by (auto simp: getRecommendationsForUser_def getCached_none [OF assms(2)] Let_def)

lemma getCached_cache_sub:
  "cache (snd (getCachedRecommendations now uid count st)) key = Some c \<Longrightarrow> cache st key = Some c"
  by (auto simp: getCachedRecommendations_def Let_def split: option.splits if_splits)

lemma getCached_rate: "rateLimitMap (snd (getCachedRecommendations now uid count st)) = rateLimitMap st"
  by (auto simp: getCachedRecommendations_def Let_def split: option.splits if_splits)

lemma resolve_preserves:
  assumes "cache_from_ranker st"
  shows "cache_from_ranker (snd (getRecommendationsForUser store gorse now uid count st))"
proof -
  obtain r st1 where g: "getCachedRecommendations now uid count st = (r, st1)" by (cases "getCachedRecommendations now uid count st")
  have st1: "cache_from_ranker st1"
    using assms getCached_cache_sub [of now uid count st] g
    unfolding cache_from_ranker_def by (metis snd_conv)
  show ?thesis
    using st1 unfolding getRecommendationsForUser_def g
    by (auto simp: cache_from_ranker_def setCachedRecommendations_def Let_def
        split: option.splits)
qed

lemma checkRateLimit_cache: "cache (snd (checkRateLimit now uid st)) = cache st"
  by (auto simp: checkRateLimit_def split: option.splits)

lemma endpoint_state:
  "snd (recommendations_endpoint store gorse now (Some uid) count st) =
     (if uid = [] then st
      else if fst (checkRateLimit now uid st)
        then snd (getRecommendationsForUser store gorse now uid count (snd (checkRateLimit now uid st)))
        else snd (checkRateLimit now uid st))"
  by (cases "checkRateLimit now uid st")
     (simp add: recommendations_endpoint_def split: prod.splits bool.splits)

lemma endpoint_preserves:
  assumes "cache_from_ranker st"
  shows "cache_from_ranker (snd (recommendations_endpoint store gorse now (Some uid) count st))"
proof -
  have c: "cache_from_ranker (snd (checkRateLimit now uid st))"
    using assms checkRateLimit_cache [of now uid st] by (simp add: cache_from_ranker_def)
  show ?thesis
    unfolding endpoint_state using assms c resolve_preserves [OF c] by simp
qed

lemma invalidate_preserves:
  "cache_from_ranker st \<Longrightarrow> cache_from_ranker (invalidate_endpoint uid st)"
  by (auto simp: cache_from_ranker_def invalidate_endpoint_def invalidateCache_def Let_def
      split: if_splits)

lemma apply_op_preserves: "cache_from_ranker st \<Longrightarrow> cache_from_ranker (apply_op op st)"
  by (cases op) (simp_all add: resolve_preserves endpoint_preserves invalidate_preserves)

lemma run_ops_preserves: "cache_from_ranker st \<Longrightarrow> cache_from_ranker (run_ops ops st)"
  by (induction ops arbitrary: st) (simp_all add: apply_op_preserves)

lemma initial_ok: "cache_from_ranker initial_state"
  by (simp add: cache_from_ranker_def initial_state_def)

lemma resolve_down_dom:
  assumes "gorse = None \<or> (\<exists>recs. gorse = Some recs \<and> slice0 count recs = [])"
  shows "dom (cache (snd (getRecommendationsForUser store gorse now uid count st))) \<subseteq> dom (cache st)"
  using assms
  by (auto simp: getRecommendationsForUser_def getCachedRecommendations_def Let_def
      split: option.splits if_splits)

lemma apply_down_dom: "ranker_down op \<Longrightarrow> dom (cache (apply_op op st)) \<subseteq> dom (cache st)"
proof (cases op)
  case (Resolve store gorse now uid count)
  assume "ranker_down op"
  then have "gorse = None \<or> (\<exists>recs. gorse = Some recs \<and> slice0 count recs = [])"
    using Resolve by (auto split: option.splits)
  from resolve_down_dom [OF this] show ?thesis using Resolve by simp
next
  case (Request store gorse now uid count)
  assume "ranker_down op"
  then have d: "gorse = None \<or> (\<exists>recs. gorse = Some recs \<and> slice0 count recs = [])"
    using Request by (auto split: option.splits)
  have c1: "cache (snd (checkRateLimit now uid st)) = cache st" by (rule checkRateLimit_cache)
  have "dom (cache (snd (recommendations_endpoint store gorse now (Some uid) count st))) \<subseteq> dom (cache st)"
    unfolding endpoint_state
    using resolve_down_dom [OF d, of store now uid "snd (checkRateLimit now uid st)"] c1 by simp
  then show ?thesis using Request by simp
next
  case (Invalidate uid)
  then show ?thesis
    by (auto simp: invalidate_endpoint_def invalidateCache_def Let_def split: if_splits)
qed

lemma run_down_dom: "list_all ranker_down ops \<Longrightarrow> dom (cache (run_ops ops st)) \<subseteq> dom (cache st)"
proof (induction ops arbitrary: st)
  case Nil
  then show ?case by simp
next
  case (Cons op ops)
  then have "dom (cache (run_ops ops (apply_op op st))) \<subseteq> dom (cache (apply_op op st))" by simp
  moreover have "dom (cache (apply_op op st)) \<subseteq> dom (cache st)"
    using Cons.prems by (simp add: apply_down_dom)
  ultimately show ?case by simp
qed

text \<open>
  Claim C3, as the code has it. The resolver itself (\<open>getRecommendationsForUser\<close>)
  returns a fresh cached result at once, marked as cached, without touching its state,
  and contains no rate check. The rate check stands in the HTTP handler, before the
  resolver is called: a request of a user whose last admitted request is less than a
  second old is rejected with the rate-limit response whether or not a fresh cached
  result exists, and the state is left as it was; a request that passes the rate check
  and finds a fresh cached result gets that result marked as cached, and its time is
  recorded for the next rate check. The handler answers with the rate-limit response in
  no other case.
\<close>

theorem rate_check_before_cache:
  "(cache st (getCacheKey uid count) = Some c \<and> now - timestamp c \<le> CACHE_TTL_MS \<longrightarrow>
      getRecommendationsForUser store gorse now uid count st = ((data c)\<lparr>cached := True\<rparr>, st)) \<and>
   (uid \<noteq> [] \<and> rateLimitMap st uid = Some t \<and> t \<noteq> 0 \<and> now - t < RATE_LIMIT_MS \<longrightarrow>
      recommendations_endpoint store gorse now (Some uid) count st = (RateLimitExceeded, st)) \<and>
   (uid \<noteq> [] \<and>
    (rateLimitMap st uid = None \<or>
     (\<exists>t'. rateLimitMap st uid = Some t' \<and> (t' = 0 \<or> RATE_LIMIT_MS \<le> now - t'))) \<and>
    cache st (getCacheKey uid count) = Some c \<and> now - timestamp c \<le> CACHE_TTL_MS \<longrightarrow>
      recommendations_endpoint store gorse now (Some uid) count st =
        (OkJson ((data c)\<lparr>cached := True\<rparr>),
         st\<lparr>rateLimitMap := (rateLimitMap st)(uid \<mapsto> now)\<rparr>)) \<and>
   (fst (recommendations_endpoint store gorse now (Some uid) count st) = RateLimitExceeded \<longleftrightarrow>
      uid \<noteq> [] \<and> (\<exists>t'. rateLimitMap st uid = Some t' \<and> t' \<noteq> 0 \<and> now - t' < RATE_LIMIT_MS)) \<and>
   CACHE_TTL_MS = 300000 \<and> RATE_LIMIT_MS = 1000"
proof (intro conjI impI)
  show "getRecommendationsForUser store gorse now uid count st = ((data c)\<lparr>cached := True\<rparr>, st)"
    if "cache st (getCacheKey uid count) = Some c \<and> now - timestamp c \<le> CACHE_TTL_MS"
    using that by (intro resolve_fresh) blast+
  show "recommendations_endpoint store gorse now (Some uid) count st = (RateLimitExceeded, st)"
    if "uid \<noteq> [] \<and> rateLimitMap st uid = Some t \<and> t \<noteq> 0 \<and> now - t < RATE_LIMIT_MS"
    using that by (intro endpoint_refuses) blast+
  show "recommendations_endpoint store gorse now (Some uid) count st =
        (OkJson ((data c)\<lparr>cached := True\<rparr>),
         st\<lparr>rateLimitMap := (rateLimitMap st)(uid \<mapsto> now)\<rparr>)"
    if "uid \<noteq> [] \<and>
      (rateLimitMap st uid = None \<or>
       (\<exists>t'. rateLimitMap st uid = Some t' \<and> (t' = 0 \<or> RATE_LIMIT_MS \<le> now - t'))) \<and>
      cache st (getCacheKey uid count) = Some c \<and> now - timestamp c \<le> CACHE_TTL_MS"
    using that by (intro endpoint_cached) blast+
  show "fst (recommendations_endpoint store gorse now (Some uid) count st) = RateLimitExceeded \<longleftrightarrow>
      uid \<noteq> [] \<and> (\<exists>t'. rateLimitMap st uid = Some t' \<and> t' \<noteq> 0 \<and> now - t' < RATE_LIMIT_MS)"
    by (rule endpoint_rate_limited_iff)
  show "CACHE_TTL_MS = 300000" by (simp add: CACHE_TTL_MS_def)
  show "RATE_LIMIT_MS = 1000" by (simp add: RATE_LIMIT_MS_def)
qed

text \<open>
  After a first request at time 100 that the ranker answered: the resolver, called at
  time 500, serves the cached result and leaves the state alone; the handler, called at
  time 500, rejects the request; called at time 1100, it serves the cached result.
\<close>

theorem rate_check_before_cache_witness:
  "cached (fst (getRecommendationsForUser sample_db None 500 ''u'' 20 state_after_first_request)) \<and>
   snd (getRecommendationsForUser sample_db None 500 ''u'' 20 state_after_first_request) =
     state_after_first_request \<and>
   recommendations_endpoint sample_db None 500 (Some ''u'') 20 state_after_first_request =
     (RateLimitExceeded, state_after_first_request) \<and>
   (\<exists>r. fst (recommendations_endpoint sample_db None 1100 (Some ''u'') 20 state_after_first_request) =
          OkJson r \<and> cached r)"
proof -
  have "map_option timestamp (cache state_after_first_request (getCacheKey ''u'' 20)) = Some 100"
    by code_simp
  then obtain c where c: "cache state_after_first_request (getCacheKey ''u'' 20) = Some c"
    and tc: "timestamp c = 100" by auto
  have rl: "rateLimitMap state_after_first_request ''u'' = Some 100" by code_simp
  have ne: "''u'' \<noteq> []" by simp
  have f500: "500 - timestamp c \<le> CACHE_TTL_MS" and f1100: "1100 - timestamp c \<le> CACHE_TTL_MS"
    by (simp_all add: tc CACHE_TTL_MS_def)
  have a: "getRecommendationsForUser sample_db None 500 ''u'' 20 state_after_first_request =
      ((data c)\<lparr>cached := True\<rparr>, state_after_first_request)"
    using rate_check_before_cache [of state_after_first_request "''u''" 20 c 500 sample_db None 100]
      c f500 by blast
  have r500: "(100::int) \<noteq> 0 \<and> 500 - 100 < RATE_LIMIT_MS" by (simp add: RATE_LIMIT_MS_def)
  have b: "recommendations_endpoint sample_db None 500 (Some ''u'') 20 state_after_first_request =
      (RateLimitExceeded, state_after_first_request)"
    using rate_check_before_cache [of state_after_first_request "''u''" 20 c 500 sample_db None 100]
      ne rl r500 by blast
  have r1100: "\<exists>t'. rateLimitMap state_after_first_request ''u'' = Some t' \<and>
      (t' = 0 \<or> RATE_LIMIT_MS \<le> 1100 - t')"
    using rl by (simp add: RATE_LIMIT_MS_def)
  have d: "recommendations_endpoint sample_db None 1100 (Some ''u'') 20 state_after_first_request =
      (OkJson ((data c)\<lparr>cached := True\<rparr>),
       state_after_first_request\<lparr>rateLimitMap :=
         (rateLimitMap state_after_first_request)(''u'' \<mapsto> 1100)\<rparr>)"
    using rate_check_before_cache [of state_after_first_request "''u''" 20 c 1100 sample_db None 100]
      ne r1100 c f1100 by blast
  show ?thesis using a b d by simp
qed

text \<open>
  Claim C3 as stated fails: after the first request at time 100 the cache holds a result
  of that time for the user and count, still fresh at time 500, and yet the request at
  time 500 is rejected with the rate-limit response.
\<close>

theorem cache_hit_rate_limited:
  "map_option timestamp (cache state_after_first_request (getCacheKey ''u'' 20)) = Some 100 \<and>
   500 - 100 \<le> CACHE_TTL_MS \<and>
   fst (recommendations_endpoint sample_db (Some sample_recs) 500 (Some ''u'') 20
          state_after_first_request) = RateLimitExceeded"
  by code_simp

text \<open>
  Claim C10, as the code has it. Whatever requests, resolver calls and invalidations
  have run since the start, every cached result was produced on the ranker path. A
  result of the fallback scorer is tagged \<open>fallback\<close> and is not marked as cached. When
  the ranker's request fails or yields no candidate and the cache holds no fresh result
  for the user and count, the resolver returns the fallback scorer's result and writes
  nothing to the cache (a stale entry of that key is deleted). Operations during which
  the ranker gives nothing add no cache entry; so from a state without an entry for the
  user and count, through any such operations, a resolver call that gets nothing from the
  ranker returns the freshly computed fallback result and leaves the state as it is.
\<close>

theorem fallback_never_cached:
  "cache_from_ranker (run_ops ops initial_state) \<and>
   result_source (getFallbackRecommendations store now uid count) = ''fallback'' \<and>
   \<not> cached (getFallbackRecommendations store now uid count) \<and>
   ((gorse = None \<or> (\<exists>recs. gorse = Some recs \<and> slice0 count recs = [])) \<and>
    (cache st (getCacheKey uid count) = None \<or>
     (\<exists>c. cache st (getCacheKey uid count) = Some c \<and> CACHE_TTL_MS < now - timestamp c)) \<longrightarrow>
      getRecommendationsForUser store gorse now uid count st =
        (getFallbackRecommendations store now uid count,
         st\<lparr>cache := (cache st)(getCacheKey uid count := None)\<rparr>)) \<and>
   (list_all ranker_down ops \<longrightarrow> dom (cache (run_ops ops st)) \<subseteq> dom (cache st)) \<and>
   (list_all ranker_down ops \<and> cache st (getCacheKey uid count) = None \<and>
    (gorse = None \<or> (\<exists>recs. gorse = Some recs \<and> slice0 count recs = [])) \<longrightarrow>
      getRecommendationsForUser store gorse now uid count (run_ops ops st) =
        (getFallbackRecommendations store now uid count, run_ops ops st))"
proof (intro conjI impI)
  show "cache_from_ranker (run_ops ops initial_state)"
    using initial_ok by (rule run_ops_preserves)
  show "result_source (getFallbackRecommendations store now uid count) = ''fallback''"
    and "\<not> cached (getFallbackRecommendations store now uid count)"
    using fallback_source [of store now uid count] by blast+
  show "getRecommendationsForUser store gorse now uid count st =
        (getFallbackRecommendations store now uid count,
         st\<lparr>cache := (cache st)(getCacheKey uid count := None)\<rparr>)"
    if "(gorse = None \<or> (\<exists>recs. gorse = Some recs \<and> slice0 count recs = [])) \<and>
      (cache st (getCacheKey uid count) = None \<or>
       (\<exists>c. cache st (getCacheKey uid count) = Some c \<and> CACHE_TTL_MS < now - timestamp c))"
    using that by (intro resolve_ranker_down) blast+
  show "dom (cache (run_ops ops st)) \<subseteq> dom (cache st)" if "list_all ranker_down ops"
    using that by (rule run_down_dom)
  show "getRecommendationsForUser store gorse now uid count (run_ops ops st) =
        (getFallbackRecommendations store now uid count, run_ops ops st)"
    if h: "list_all ranker_down ops \<and> cache st (getCacheKey uid count) = None \<and>
      (gorse = None \<or> (\<exists>recs. gorse = Some recs \<and> slice0 count recs = []))"
  proof -
    have "dom (cache (run_ops ops st)) \<subseteq> dom (cache st)" using h run_down_dom by blast
    then have n: "cache (run_ops ops st) (getCacheKey uid count) = None" using h by blast
    have same: "(run_ops ops st)\<lparr>cache := (cache (run_ops ops st))(getCacheKey uid count := None)\<rparr> =
        run_ops ops st"
      using n by (simp add: fun_upd_idem)
    show ?thesis
      using resolve_ranker_down [of gorse count "run_ops ops st" uid now store] h n same by simp
  qed
qed

text \<open>
  From the start, two resolver calls of one user while the ranker's request fails: both
  return the fallback scorer's result, not marked as cached, and the cache stays empty.
\<close>

theorem fallback_never_cached_witness:
  "getRecommendationsForUser sample_db None 50 ''u'' 20
      (run_ops [Resolve sample_db None 0 ''u'' 20] initial_state) =
     (getFallbackRecommendations sample_db 50 ''u'' 20,
      run_ops [Resolve sample_db None 0 ''u'' 20] initial_state) \<and>
   cache (run_ops [Resolve sample_db None 0 ''u'' 20] initial_state) = Map.empty \<and>
   map contentId (items (getFallbackRecommendations sample_db 50 ''u'' 20)) = [''c1'']"
proof -
  have h: "list_all ranker_down [Resolve sample_db None 0 ''u'' 20] \<and>
      cache initial_state (getCacheKey ''u'' 20) = None \<and>
      ((None :: gorse_rec list option) = None \<or>
       (\<exists>recs. (None :: gorse_rec list option) = Some recs \<and> slice0 20 recs = []))"
    by (simp add: initial_state_def)
  have a: "getRecommendationsForUser sample_db None 50 ''u'' 20
      (run_ops [Resolve sample_db None 0 ''u'' 20] initial_state) =
     (getFallbackRecommendations sample_db 50 ''u'' 20,
      run_ops [Resolve sample_db None 0 ''u'' 20] initial_state)"
    using fallback_never_cached [of "[Resolve sample_db None 0 ''u'' 20]" sample_db 50 "''u''" 20
        None initial_state] h by blast
  have "dom (cache (run_ops [Resolve sample_db None 0 ''u'' 20] initial_state)) \<subseteq>
      dom (cache initial_state)"
    using fallback_never_cached [of "[Resolve sample_db None 0 ''u'' 20]" sample_db 50 "''u''" 20
        None initial_state] h by blast
  then have b: "cache (run_ops [Resolve sample_db None 0 ''u'' 20] initial_state) = Map.empty"
    by (simp add: initial_state_def)
  have c: "map contentId (items (getFallbackRecommendations sample_db 50 ''u'' 20)) = [''c1'']"
    by code_simp
  show ?thesis using a b c by blast
qed

text \<open>
  Claim C10 as stated fails in its last clause: after a request at time 100 that the
  ranker answered, a resolver call at time 2000 during which the ranker's request fails
  is served from the cache, marked as cached, with the ranker's result.
\<close>

theorem cached_result_during_outage:
  "cached (fst (getRecommendationsForUser sample_db None 2000 ''u'' 20 state_after_first_request)) \<and>
   result_source (fst (getRecommendationsForUser sample_db None 2000 ''u'' 20
       state_after_first_request)) = ''gorse''"
  by code_simp

subsection \<open>Collection orchestrator: aggregation\<close>

lemma aggregate_results_spec:
  "aggregate_results rs a =
     \<lparr>allItems = allItems a @ concat (map fr_items (filter success rs)),
      errors = errors a @ map error_entry (filter (\<lambda>r. \<not> success r) rs),
      feedsAttempted = feedsAttempted a + length rs,
      feedsSucceeded = feedsSucceeded a + length (filter success rs)\<rparr>"
  by (induction rs arbitrary: a) (simp_all add: Let_def error_entry_def)

lemma aggregate_from_empty:
  "aggregate_results rs empty_aggregate =
     \<lparr>allItems = concat (map fr_items (filter success rs)),
      errors = map error_entry (filter (\<lambda>r. \<not> success r) rs),
      feedsAttempted = length rs,
      feedsSucceeded = length (filter success rs)\<rparr>"
  by (simp add: aggregate_results_spec empty_aggregate_def)

lemma length_split_success:
  "length rs = length (filter success rs) + length (filter (\<lambda>r. \<not> success r) rs)"
  using sum_length_filter_compl [of success rs] by simp

lemma collect_dry:
  "collectAllContent env True sources cdb =
     (DryRunReport (length (flatResults sources (fetchers env)))
        (length (filter success (flatResults sources (fetchers env))))
        (length (concat (map fr_items (filter success (flatResults sources (fetchers env))))))
        (finished env - started env)
        (map error_entry (filter (\<lambda>r. \<not> success r) (flatResults sources (fetchers env)))), cdb)"
  by (simp add: collectAllContent_def aggregate_from_empty Let_def)

lemma collect_live_report:
  "report_feedsAttempted (fst (collectAllContent env False sources cdb)) =
     length (flatResults sources (fetchers env)) \<and>
   report_feedsSucceeded (fst (collectAllContent env False sources cdb)) =
     length (filter success (flatResults sources (fetchers env))) \<and>
   report_errors (fst (collectAllContent env False sources cdb)) =
     map error_entry (filter (\<lambda>r. \<not> success r) (flatResults sources (fetchers env)))"
  by (simp add: collectAllContent_def aggregate_from_empty Let_def)

lemma collect_live_store:
  "content_docs (snd (collectAllContent env False sources cdb)) =
     ps_store (persist_loop (max_new_items env) (started env) (io_of env) 0
        (concat (map fr_items (filter success (flatResults sources (fetchers env)))))
        (persist_start (content_docs cdb)))"
  by (simp add: collectAllContent_def aggregate_from_empty Let_def persist_start_def)

lemma collect_live_new:
  "report_new_items (fst (collectAllContent env False sources cdb)) =
     Some (newItemsAdded (persist_loop (max_new_items env) (started env) (io_of env) 0
        (concat (map fr_items (filter success (flatResults sources (fetchers env)))))
        (persist_start (content_docs cdb))))"
  by (simp add: collectAllContent_def aggregate_from_empty Let_def persist_start_def)

text \<open>
  Claim C5. A run, dry or live, always ends with a report. Over the results the active
  fetchers returned, in their order: the count of feeds attempted is the number of
  results; the count of feeds succeeded is the number of successful ones; the error list
  has one entry, source and error, for every failed result and nothing else, so that
  attempted is succeeded plus the length of the error list; and the items collected are
  those of all successful results: a dry run reports their number and leaves the storage
  untouched, a live run hands them to the persisting loop. (A fetcher whose promise
  rejects contributes no result; the fetchers of the collector catch their own errors
  and report them as failed results.)
\<close>

theorem partial_failure_isolation:
  "report_feedsAttempted (fst (collectAllContent env dry sources cdb)) =
     length (flatResults sources (fetchers env)) \<and>
   report_feedsSucceeded (fst (collectAllContent env dry sources cdb)) =
     length (filter success (flatResults sources (fetchers env))) \<and>
   report_errors (fst (collectAllContent env dry sources cdb)) =
     map error_entry (filter (\<lambda>r. \<not> success r) (flatResults sources (fetchers env))) \<and>
   report_feedsAttempted (fst (collectAllContent env dry sources cdb)) =
     report_feedsSucceeded (fst (collectAllContent env dry sources cdb)) +
     length (report_errors (fst (collectAllContent env dry sources cdb))) \<and>
   (dry \<longrightarrow>
      report_itemsFound (fst (collectAllContent env dry sources cdb)) =
        Some (length (concat (map fr_items (filter success (flatResults sources (fetchers env)))))) \<and>
      snd (collectAllContent env dry sources cdb) = cdb) \<and>
   (\<not> dry \<longrightarrow>
      content_docs (snd (collectAllContent env dry sources cdb)) =
        ps_store (persist_loop (max_new_items env) (started env) (io_of env) 0
          (concat (map fr_items (filter success (flatResults sources (fetchers env)))))
          (persist_start (content_docs cdb))))"
proof (cases dry)
  case True
  then have d: "dry = True" by simp
  show ?thesis
    unfolding d
    using collect_dry [of env sources cdb]
      length_split_success [of "flatResults sources (fetchers env)"]
    by simp
next
  case False
  then have d: "dry = False" by simp
  show ?thesis
    unfolding d
    using collect_live_report [of env sources cdb] collect_live_store [of env sources cdb]
      length_split_success [of "flatResults sources (fetchers env)"]
    by simp
qed

text \<open>
  A run over one working feed with three items, one failing feed and an API fetcher
  without key: dry, it reports three feeds attempted, one succeeded, three items and the
  two failures, and writes nothing; live, its report lists the same two failures.
\<close>

theorem partial_failure_isolation_witness:
  "collectAllContent sample_env True None empty_db =
     (DryRunReport 3 1 3 10
        [(''http://y/feed'', ''timeout''), (''NewsAPI'', ''API key not configured'')], empty_db) \<and>
   report_errors (fst (collectAllContent sample_env False None empty_db)) =
     [(''http://y/feed'', ''timeout''), (''NewsAPI'', ''API key not configured'')] \<and>
   report_feedsAttempted (fst (collectAllContent sample_env False None empty_db)) = 3"
proof -
  have e: "map error_entry (filter (\<lambda>r. \<not> success r) (flatResults None (fetchers sample_env))) =
      [(''http://y/feed'', ''timeout''), (''NewsAPI'', ''API key not configured'')]"
    by code_simp
  have n: "length (flatResults None (fetchers sample_env)) = 3" by code_simp
  have d: "collectAllContent sample_env True None empty_db =
     (DryRunReport 3 1 3 10
        [(''http://y/feed'', ''timeout''), (''NewsAPI'', ''API key not configured'')], empty_db)"
    by code_simp
  have a: "report_errors (fst (collectAllContent sample_env False None empty_db)) =
      map error_entry (filter (\<lambda>r. \<not> success r) (flatResults None (fetchers sample_env)))"
    using partial_failure_isolation [of sample_env False None empty_db] by blast
  have b: "report_feedsAttempted (fst (collectAllContent sample_env False None empty_db)) =
      length (flatResults None (fetchers sample_env))"
    using partial_failure_isolation [of sample_env False None empty_db] by blast
  show ?thesis using d a b e n by simp
qed

subsection \<open>Collection orchestrator: persisting\<close>

lemma doc_set_absent: "\<not> doc_exists s k \<Longrightarrow> doc_set k v s = s @ [(k, v)]"
  by (induction s) (auto simp: doc_exists_def)

lemma doc_exists_append: "doc_exists (s @ t) k \<longleftrightarrow> doc_exists s k \<or> doc_exists t k"
  by (auto simp: doc_exists_def)

lemma doc_exists_keys: "doc_exists s k \<longleftrightarrow> k \<in> set (map fst s)"
  by (simp add: doc_exists_def)

text \<open>What the loop does to a state, whatever the storage calls do.\<close>

lemma persist_loop_general:
  "\<exists>new. itemsToSync (persist_loop cap now io i its ps) = itemsToSync ps @ new \<and>
         subseq new its \<and>
         ps_store (persist_loop cap now io i its ps) = ps_store ps @ map (stored_entry now) new \<and>
         newItemsAdded (persist_loop cap now io i its ps) = newItemsAdded ps + length new \<and>
         (newItemsAdded ps \<le> cap \<longrightarrow> newItemsAdded (persist_loop cap now io i its ps) \<le> cap) \<and>
         distinct (map docId new) \<and>
         (\<forall>it \<in> set new. \<not> doc_exists (ps_store ps) (docId it))"
proof (induction its arbitrary: i ps)
  case Nil
  show ?case by (intro exI [of _ "[]"]) simp
next
  case (Cons x rest)
  let ?P = "\<lambda>ps' new. itemsToSync ps' = itemsToSync ps @ new \<and>
         subseq new (x # rest) \<and>
         ps_store ps' = ps_store ps @ map (stored_entry now) new \<and>
         newItemsAdded ps' = newItemsAdded ps + length new \<and>
         (newItemsAdded ps \<le> cap \<longrightarrow> newItemsAdded ps' \<le> cap) \<and>
         distinct (map docId new) \<and>
         (\<forall>it \<in> set new. \<not> doc_exists (ps_store ps) (docId it))"
  consider (full) "cap \<le> newItemsAdded ps"
    | (getf) "newItemsAdded ps < cap" "io i = GetThrows"
    | (ex) "newItemsAdded ps < cap" "io i \<noteq> GetThrows" "doc_exists (ps_store ps) (docId x)"
    | (setf) "newItemsAdded ps < cap" "io i = SetThrows" "\<not> doc_exists (ps_store ps) (docId x)"
    | (new) "newItemsAdded ps < cap" "io i = IoOk" "\<not> doc_exists (ps_store ps) (docId x)"
    by (cases "cap \<le> newItemsAdded ps"; cases "io i";
        cases "doc_exists (ps_store ps) (docId x)") (auto simp: not_le)
  then show ?case
  proof cases
    case full
    then have e: "persist_loop cap now io i (x # rest) ps = ps" by simp
    have "?P (persist_loop cap now io i (x # rest) ps) []" unfolding e by simp
    then show ?thesis by blast
  next
    case getf
    then have e: "persist_loop cap now io i (x # rest) ps = persist_loop cap now io (Suc i) rest ps"
      by simp
    from Cons.IH [of "Suc i" ps] obtain new where
      n: "itemsToSync (persist_loop cap now io (Suc i) rest ps) = itemsToSync ps @ new"
        "subseq new rest"
        "ps_store (persist_loop cap now io (Suc i) rest ps) = ps_store ps @ map (stored_entry now) new"
        "newItemsAdded (persist_loop cap now io (Suc i) rest ps) = newItemsAdded ps + length new"
        "newItemsAdded ps \<le> cap \<longrightarrow> newItemsAdded (persist_loop cap now io (Suc i) rest ps) \<le> cap"
        "distinct (map docId new)"
        "\<forall>it \<in> set new. \<not> doc_exists (ps_store ps) (docId it)"
      by blast
    have "?P (persist_loop cap now io i (x # rest) ps) new"
      unfolding e using n by (simp add: list_emb_Cons)
    then show ?thesis by blast
  next
    case setf
    then have e: "persist_loop cap now io i (x # rest) ps = persist_loop cap now io (Suc i) rest ps"
      by simp
    from Cons.IH [of "Suc i" ps] obtain new where
      n: "itemsToSync (persist_loop cap now io (Suc i) rest ps) = itemsToSync ps @ new"
        "subseq new rest"
        "ps_store (persist_loop cap now io (Suc i) rest ps) = ps_store ps @ map (stored_entry now) new"
        "newItemsAdded (persist_loop cap now io (Suc i) rest ps) = newItemsAdded ps + length new"
        "newItemsAdded ps \<le> cap \<longrightarrow> newItemsAdded (persist_loop cap now io (Suc i) rest ps) \<le> cap"
        "distinct (map docId new)"
        "\<forall>it \<in> set new. \<not> doc_exists (ps_store ps) (docId it)"
      by blast
    have "?P (persist_loop cap now io i (x # rest) ps) new"
      unfolding e using n by (simp add: list_emb_Cons)
    then show ?thesis by blast
  next
    case ex
    let ?ps1 = "ps\<lparr>existingItems := existingItems ps + 1\<rparr>"
    from ex have e: "persist_loop cap now io i (x # rest) ps = persist_loop cap now io (Suc i) rest ?ps1"
      by simp
    from Cons.IH [of "Suc i" ?ps1] obtain new where
      n: "itemsToSync (persist_loop cap now io (Suc i) rest ?ps1) = itemsToSync ?ps1 @ new"
        "subseq new rest"
        "ps_store (persist_loop cap now io (Suc i) rest ?ps1) = ps_store ?ps1 @ map (stored_entry now) new"
        "newItemsAdded (persist_loop cap now io (Suc i) rest ?ps1) = newItemsAdded ?ps1 + length new"
        "newItemsAdded ?ps1 \<le> cap \<longrightarrow> newItemsAdded (persist_loop cap now io (Suc i) rest ?ps1) \<le> cap"
        "distinct (map docId new)"
        "\<forall>it \<in> set new. \<not> doc_exists (ps_store ?ps1) (docId it)"
      by blast
    have "?P (persist_loop cap now io i (x # rest) ps) new"
      unfolding e using n by (simp add: list_emb_Cons)
    then show ?thesis by blast
  next
    case new
    let ?ps1 = "ps\<lparr>ps_store := doc_set (docId x) ((item_data x)\<lparr>createdAt := Some now\<rparr>) (ps_store ps),
                 newItemsAdded := newItemsAdded ps + 1,
                 itemsToSync := itemsToSync ps @ [x]\<rparr>"
    from new have e: "persist_loop cap now io i (x # rest) ps = persist_loop cap now io (Suc i) rest ?ps1"
      by simp
    have st1: "ps_store ?ps1 = ps_store ps @ [stored_entry now x]"
      using doc_set_absent [OF new(3)] by (simp add: stored_entry_def)
    from Cons.IH [of "Suc i" ?ps1] obtain new' where
      n: "itemsToSync (persist_loop cap now io (Suc i) rest ?ps1) = itemsToSync ?ps1 @ new'"
        "subseq new' rest"
        "ps_store (persist_loop cap now io (Suc i) rest ?ps1) = ps_store ?ps1 @ map (stored_entry now) new'"
        "newItemsAdded (persist_loop cap now io (Suc i) rest ?ps1) = newItemsAdded ?ps1 + length new'"
        "newItemsAdded ?ps1 \<le> cap \<longrightarrow> newItemsAdded (persist_loop cap now io (Suc i) rest ?ps1) \<le> cap"
        "distinct (map docId new')"
        "\<forall>it \<in> set new'. \<not> doc_exists (ps_store ?ps1) (docId it)"
      by blast
    have fresh: "\<forall>it \<in> set new'. docId it \<noteq> docId x \<and> \<not> doc_exists (ps_store ps) (docId it)"
      using n(7) unfolding st1 doc_exists_append by (auto simp: doc_exists_def stored_entry_def)
    have cap1: "newItemsAdded ?ps1 \<le> cap" using new(1) by simp
    have "?P (persist_loop cap now io i (x # rest) ps) (x # new')"
      unfolding e
      using n(1,2,4,6) n(3) [unfolded st1] n(5) cap1 fresh new(3)
      by (auto simp: image_iff)
    then show ?thesis by blast
  qed
qed

lemma persist_loop_keeps:
  "doc_exists (ps_store ps) k \<Longrightarrow> doc_exists (ps_store (persist_loop cap now io i its ps)) k"
  using persist_loop_general [of cap now io i its ps] by (auto simp: doc_exists_append)

lemma fresh_items_cong:
  "set seen = set seen' \<Longrightarrow> fresh_items seen xs = fresh_items seen' xs"
proof (induction xs arbitrary: seen seen')
  case Nil
  then show ?case by simp
next
  case (Cons x xs)
  have "fresh_items (docId x # seen) xs = fresh_items (docId x # seen') xs"
    using Cons.prems by (intro Cons.IH) simp
  moreover have "fresh_items seen xs = fresh_items seen' xs"
    using Cons.prems by (intro Cons.IH)
  ultimately show ?case using Cons.prems by simp
qed

text \<open>When no storage call fails, the loop persists the first new items up to the cap.\<close>

lemma persist_loop_all_ok:
  "(\<forall>j < length its. io (i + j) = IoOk) \<Longrightarrow>
   itemsToSync (persist_loop cap now io i its ps) =
     itemsToSync ps @ take (cap - newItemsAdded ps) (fresh_items (map fst (ps_store ps)) its)"
proof (induction its arbitrary: i ps)
  case Nil
  then show ?case by simp
next
  case (Cons x rest)
  have ok0: "io i = IoOk" using Cons.prems by (auto dest: spec [of _ 0])
  have okr: "\<forall>j < length rest. io (Suc i + j) = IoOk"
  proof (intro allI impI)
    fix j assume "j < length rest"
    then have "Suc j < length (x # rest)" by simp
    with Cons.prems have "io (i + Suc j) = IoOk" by blast
    then show "io (Suc i + j) = IoOk" by simp
  qed
  show ?case
  proof (cases "cap \<le> newItemsAdded ps")
    case True
    then show ?thesis by simp
  next
    case lt: False
    show ?thesis
    proof (cases "doc_exists (ps_store ps) (docId x)")
      case True
      let ?ps1 = "ps\<lparr>existingItems := existingItems ps + 1\<rparr>"
      have "persist_loop cap now io i (x # rest) ps = persist_loop cap now io (Suc i) rest ?ps1"
        using lt ok0 True by simp
      moreover have "fresh_items (map fst (ps_store ps)) (x # rest) =
          fresh_items (map fst (ps_store ps)) rest"
        using True by (simp add: doc_exists_keys)
      ultimately show ?thesis using Cons.IH [OF okr, of ?ps1] by simp
    next
      case False
      let ?ps1 = "ps\<lparr>ps_store := doc_set (docId x) ((item_data x)\<lparr>createdAt := Some now\<rparr>) (ps_store ps),
                 newItemsAdded := newItemsAdded ps + 1,
                 itemsToSync := itemsToSync ps @ [x]\<rparr>"
      have e: "persist_loop cap now io i (x # rest) ps = persist_loop cap now io (Suc i) rest ?ps1"
        using lt ok0 False by simp
      have st1: "map fst (ps_store ?ps1) = map fst (ps_store ps) @ [docId x]"
        using doc_set_absent [OF False] by simp
      have fr: "fresh_items (map fst (ps_store ?ps1)) rest =
          fresh_items (docId x # map fst (ps_store ps)) rest"
        unfolding st1 by (rule fresh_items_cong) auto
      have f0: "fresh_items (map fst (ps_store ps)) (x # rest) =
          x # fresh_items (docId x # map fst (ps_store ps)) rest"
        using False by (simp add: doc_exists_keys)
      have tk: "take (cap - newItemsAdded ps) (x # fresh_items (docId x # map fst (ps_store ps)) rest) =
          x # take (cap - (newItemsAdded ps + 1)) (fresh_items (docId x # map fst (ps_store ps)) rest)"
        using lt by (simp add: take_Cons')
      show ?thesis
        unfolding e f0 tk using Cons.IH [OF okr, of ?ps1] fr by simp
    qed
  qed
qed

lemma fresh_items_cover:
  "it \<in> set xs \<Longrightarrow> docId it \<in> set seen \<or> docId it \<in> docId ` set (fresh_items seen xs)"
proof (induction xs arbitrary: seen)
  case Nil
  then show ?case by simp
next
  case (Cons x xs)
  show ?case
  proof (cases "it = x")
    case True
    then show ?thesis by auto
  next
    case False
    with Cons.prems have m: "it \<in> set xs" by simp
    show ?thesis
    proof (cases "docId x \<in> set seen")
      case True
      then show ?thesis using Cons.IH [OF m, of seen] by simp
    next
      case False
      then show ?thesis using Cons.IH [OF m, of "docId x # seen"] by auto
    qed
  qed
qed

text \<open>A run that stays under the cap with no failed storage call leaves every item stored.\<close>

lemma persist_loop_covers:
  assumes ok: "\<forall>j < length its. io j = IoOk"
    and under: "newItemsAdded (persist_loop cap now io 0 its (persist_start s)) < cap"
    and mem: "it \<in> set its"
  shows "doc_exists (ps_store (persist_loop cap now io 0 its (persist_start s))) (docId it)"
proof -
  let ?ps = "persist_loop cap now io 0 its (persist_start s)"
  let ?fresh = "fresh_items (map fst s) its"
  have sync: "itemsToSync ?ps = take cap ?fresh"
    using persist_loop_all_ok [of its io 0 cap now "persist_start s"] ok
    by (simp add: persist_start_def)
  obtain new where n: "itemsToSync ?ps = itemsToSync (persist_start s) @ new"
      "ps_store ?ps = ps_store (persist_start s) @ map (stored_entry now) new"
      "newItemsAdded ?ps = newItemsAdded (persist_start s) + length new"
    using persist_loop_general [of cap now io 0 its "persist_start s"] by blast
  have new: "new = take cap ?fresh" using n(1) sync by (simp add: persist_start_def)
  have "length (take cap ?fresh) < cap" using n(3) under new by (simp add: persist_start_def)
  then have all: "take cap ?fresh = ?fresh" by (simp add: min_def split: if_splits)
  have store: "ps_store ?ps = s @ map (stored_entry now) ?fresh"
    using n(2) new all by (simp add: persist_start_def)
  from fresh_items_cover [OF mem, of "map fst s"]
  show ?thesis
    unfolding store doc_exists_append
    by (auto simp: doc_exists_def stored_entry_def image_iff)
qed

text \<open>On items that are all stored, the loop adds nothing.\<close>

lemma persist_loop_all_stored:
  "(\<forall>it \<in> set its. doc_exists (ps_store ps) (docId it)) \<Longrightarrow>
   ps_store (persist_loop cap now io i its ps) = ps_store ps \<and>
   newItemsAdded (persist_loop cap now io i its ps) = newItemsAdded ps \<and>
   itemsToSync (persist_loop cap now io i its ps) = itemsToSync ps"
proof (induction its arbitrary: i ps)
  case Nil
  then show ?case by simp
next
  case (Cons x rest)
  have r: "\<forall>it \<in> set rest. doc_exists (ps_store ps) (docId it)" and x: "doc_exists (ps_store ps) (docId x)"
    using Cons.prems by simp_all
  have r1: "\<forall>it \<in> set rest. doc_exists (ps_store (ps\<lparr>existingItems := existingItems ps + 1\<rparr>)) (docId it)"
    using r by simp
  show ?case
    using Cons.IH [OF r, of "Suc i"] Cons.IH [OF r1, of "Suc i"] x
    by simp
qed

lemma second_run_adds_nothing:
  assumes ok: "\<forall>j < length its. io j = IoOk"
    and under: "newItemsAdded (persist_loop cap now io 0 its (persist_start s)) < cap"
  shows "newItemsAdded (persist_loop cap' now' io' 0 its
           (persist_start (ps_store (persist_loop cap now io 0 its (persist_start s))))) = 0 \<and>
         ps_store (persist_loop cap' now' io' 0 its
           (persist_start (ps_store (persist_loop cap now io 0 its (persist_start s))))) =
         ps_store (persist_loop cap now io 0 its (persist_start s))"
proof -
  let ?s1 = "ps_store (persist_loop cap now io 0 its (persist_start s))"
  have "\<forall>it \<in> set its. doc_exists (ps_store (persist_start ?s1)) (docId it)"
    using persist_loop_covers [OF ok under] by (simp add: persist_start_def)
  from persist_loop_all_stored [OF this, of cap' now' io' 0]
  show ?thesis by (simp add: persist_start_def)
qed

text \<open>
  Claim C4, as the code has it. In a live run the persisting loop takes the items in
  arrival order. The items it persists form a subsequence of the items, have pairwise
  distinct ids none of which was in storage, are at most \<open>cap\<close> many, and are appended to
  the storage, which keeps every document it had unchanged; the count of new items is
  their number. When no storage call fails they are the first \<open>cap\<close> new items, the
  remainder being dropped. Re-running on the same items adds nothing and changes nothing
  in storage provided the first run stayed under the cap and none of its storage calls
  failed. The storage and the count of new items of \<open>collectAllContent\<close> in a live run
  are those of this loop on the collected items.
\<close>

theorem persist_skips_existing_up_to_cap:
  "(\<exists>new. itemsToSync (persist_loop cap now io 0 its (persist_start s)) = new \<and>
          subseq new its \<and>
          ps_store (persist_loop cap now io 0 its (persist_start s)) =
            s @ map (stored_entry now) new \<and>
          newItemsAdded (persist_loop cap now io 0 its (persist_start s)) = length new \<and>
          length new \<le> cap \<and>
          distinct (map docId new) \<and>
          (\<forall>it \<in> set new. \<not> doc_exists s (docId it))) \<and>
   ((\<forall>j < length its. io j = IoOk) \<longrightarrow>
      itemsToSync (persist_loop cap now io 0 its (persist_start s)) =
        take cap (fresh_items (map fst s) its)) \<and>
   ((\<forall>j < length its. io j = IoOk) \<and>
    newItemsAdded (persist_loop cap now io 0 its (persist_start s)) < cap \<longrightarrow>
      newItemsAdded (persist_loop cap' now' io' 0 its
         (persist_start (ps_store (persist_loop cap now io 0 its (persist_start s))))) = 0 \<and>
      ps_store (persist_loop cap' now' io' 0 its
         (persist_start (ps_store (persist_loop cap now io 0 its (persist_start s))))) =
        ps_store (persist_loop cap now io 0 its (persist_start s))) \<and>
   content_docs (snd (collectAllContent env False sources cdb)) =
     ps_store (persist_loop (max_new_items env) (started env) (io_of env) 0
        (concat (map fr_items (filter success (flatResults sources (fetchers env)))))
        (persist_start (content_docs cdb))) \<and>
   report_new_items (fst (collectAllContent env False sources cdb)) =
     Some (newItemsAdded (persist_loop (max_new_items env) (started env) (io_of env) 0
        (concat (map fr_items (filter success (flatResults sources (fetchers env)))))
        (persist_start (content_docs cdb))))"
proof (intro conjI impI)
  obtain new where n: "itemsToSync (persist_loop cap now io 0 its (persist_start s)) =
        itemsToSync (persist_start s) @ new"
      "subseq new its"
      "ps_store (persist_loop cap now io 0 its (persist_start s)) =
        ps_store (persist_start s) @ map (stored_entry now) new"
      "newItemsAdded (persist_loop cap now io 0 its (persist_start s)) =
        newItemsAdded (persist_start s) + length new"
      "newItemsAdded (persist_start s) \<le> cap \<longrightarrow>
        newItemsAdded (persist_loop cap now io 0 its (persist_start s)) \<le> cap"
      "distinct (map docId new)"
      "\<forall>it \<in> set new. \<not> doc_exists (ps_store (persist_start s)) (docId it)"
    using persist_loop_general [of cap now io 0 its "persist_start s"] by blast
  show "\<exists>new. itemsToSync (persist_loop cap now io 0 its (persist_start s)) = new \<and>
          subseq new its \<and>
          ps_store (persist_loop cap now io 0 its (persist_start s)) =
            s @ map (stored_entry now) new \<and>
          newItemsAdded (persist_loop cap now io 0 its (persist_start s)) = length new \<and>
          length new \<le> cap \<and>
          distinct (map docId new) \<and>
          (\<forall>it \<in> set new. \<not> doc_exists s (docId it))"
    using n by (intro exI [of _ new]) (simp add: persist_start_def)
  show "itemsToSync (persist_loop cap now io 0 its (persist_start s)) =
        take cap (fresh_items (map fst s) its)"
    if "\<forall>j < length its. io j = IoOk"
    using persist_loop_all_ok [of its io 0 cap now "persist_start s"] that
    by (simp add: persist_start_def)
  show "newItemsAdded (persist_loop cap' now' io' 0 its
         (persist_start (ps_store (persist_loop cap now io 0 its (persist_start s))))) = 0"
    and "ps_store (persist_loop cap' now' io' 0 its
         (persist_start (ps_store (persist_loop cap now io 0 its (persist_start s))))) =
        ps_store (persist_loop cap now io 0 its (persist_start s))"
    if "(\<forall>j < length its. io j = IoOk) \<and>
      newItemsAdded (persist_loop cap now io 0 its (persist_start s)) < cap"
    using second_run_adds_nothing [of its io cap now s cap' now' io'] that by blast+
  show "content_docs (snd (collectAllContent env False sources cdb)) =
     ps_store (persist_loop (max_new_items env) (started env) (io_of env) 0
        (concat (map fr_items (filter success (flatResults sources (fetchers env)))))
        (persist_start (content_docs cdb)))"
    by (rule collect_live_store)
  show "report_new_items (fst (collectAllContent env False sources cdb)) =
     Some (newItemsAdded (persist_loop (max_new_items env) (started env) (io_of env) 0
        (concat (map fr_items (filter success (flatResults sources (fetchers env)))))
        (persist_start (content_docs cdb))))"
    by (rule collect_live_new)
qed

text \<open>
  Three new items under a cap of five: the first run persists all three, a second run
  on the same items adds nothing.
\<close>

theorem persist_skips_existing_up_to_cap_witness:
  "newItemsAdded (persist_loop 5 10 (\<lambda>i. IoOk) 0 three_items (persist_start [])) = 3 \<and>
   newItemsAdded (persist_loop 5 30 (\<lambda>i. IoOk) 0 three_items
      (persist_start (ps_store (persist_loop 5 10 (\<lambda>i. IoOk) 0 three_items (persist_start []))))) = 0"
proof -
  have a: "newItemsAdded (persist_loop 5 10 (\<lambda>i. IoOk) 0 three_items (persist_start [])) = 3"
    by code_simp
  have h: "(\<forall>j < length three_items. (\<lambda>i. IoOk) j = IoOk) \<and>
      newItemsAdded (persist_loop 5 10 (\<lambda>i. IoOk) 0 three_items (persist_start [])) < 5"
    using a by simp
  have b: "newItemsAdded (persist_loop 5 30 (\<lambda>i. IoOk) 0 three_items
      (persist_start (ps_store (persist_loop 5 10 (\<lambda>i. IoOk) 0 three_items (persist_start []))))) = 0"
    using persist_skips_existing_up_to_cap [of 5 10 "\<lambda>i. IoOk" three_items "[]" 5 30 "\<lambda>i. IoOk"
        sample_env None empty_db] h by blast
  show ?thesis using a b by blast
qed

text \<open>
  Claim C4 as stated fails in its last part: with a cap of two and three new items from
  an unchanged source, the first live run persists two items and the second run, against
  the same source, persists the third.
\<close>

theorem second_run_persists_dropped_item:
  "report_new_items (fst (collectAllContent sample_env False None empty_db)) = Some 2 \<and>
   report_new_items (fst (collectAllContent sample_env False None
       (snd (collectAllContent sample_env False None empty_db)))) = Some 1 \<and>
   map fst (content_docs (snd (collectAllContent sample_env False None
       (snd (collectAllContent sample_env False None empty_db))))) = [''a'', ''b'', ''c'']"
  by code_simp

subsection \<open>Rate limiter\<close>

lemma length_evict: "length (evict now q) \<le> length q"
  by (induction q) auto

lemma evict_sorted_ge: "sorted q \<Longrightarrow> t \<in> set (evict now q) \<Longrightarrow> now - 1000 \<le> t"
  by (induction q) (auto split: if_splits)

lemma set_evict: "set (evict now q) \<subseteq> set q"
  by (induction q) auto

lemma sorted_evict: "sorted q \<Longrightarrow> sorted (evict now q)"
  by (induction q) auto

lemma evict_filter: "sorted q \<Longrightarrow> evict now q = filter (\<lambda>t. now - 1000 \<le> t) q"
proof (induction q)
  case Nil
  then show ?case by simp
next
  case (Cons t ts)
  show ?case
  proof (cases "t < now - 1000")
    case True
    then show ?thesis using Cons by simp
  next
    case False
    then have "\<forall>x \<in> set (t # ts). now - 1000 \<le> x" using Cons.prems by auto
    then have "filter (\<lambda>t. now - 1000 \<le> t) (t # ts) = t # ts" by (simp only: filter_True)
    then show ?thesis using False by simp
  qed
qed

lemma evict_hd: "evict now q = t # ts \<Longrightarrow> now - 1000 \<le> t"
  by (induction q) (auto split: if_splits)

lemma evict_head_later:
  "evict now q = oldest # rest \<Longrightarrow> oldest + 1010 \<le> now' \<Longrightarrow>
   length (evict now' (oldest # rest)) \<le> length rest"
  using length_evict [of now' rest] by simp

lemma attempt_proceed_iff:
  "fst (throttle_attempt m now q) = Proceed \<longleftrightarrow> length (evict now q) < m"
  by (auto simp: throttle_attempt_def Let_def)

lemma attempt_queue:
  "snd (throttle_attempt m now q) =
     (if length (evict now q) < m then evict now q @ [now] else evict now q)"
  by (auto simp: throttle_attempt_def Let_def)

lemma attempt_length: "length q \<le> m \<Longrightarrow> length (snd (throttle_attempt m now q)) \<le> m"
  using length_evict [of now q] by (auto simp: attempt_queue)

lemma attempt_wait:
  "throttle_attempt m now q = (WaitFor d, q') \<Longrightarrow> 0 < m \<Longrightarrow>
   q' = evict now q \<and> q' \<noteq> [] \<and> d = Some (hd q' + 1010 - now) \<and> m \<le> length q'"
  by (auto simp: throttle_attempt_def Let_def split: if_splits list.splits)

lemma attempt_wait_delay_ge:
  "throttle_attempt m now q = (WaitFor (Some d), q') \<Longrightarrow> 10 \<le> d"
proof -
  assume a: "throttle_attempt m now q = (WaitFor (Some d), q')"
  then obtain oldest rest where e: "evict now q = oldest # rest" and d: "d = 1000 - (now - oldest) + 10"
    by (auto simp: throttle_attempt_def Let_def split: if_splits list.splits)
  have "\<not> oldest < now - 1000"
    using e by (induction q) (auto split: if_splits)
  then show ?thesis using d by simp
qed


lemma throttle_host_eq:
  "throttle_host m now h hq =
     (fst (throttle_attempt m now (queue_of hq h)),
      hq(h \<mapsto> snd (throttle_attempt m now (queue_of hq h))))"
  by (simp add: throttle_host_def queue_of_def split: prod.splits)

lemma run_passes_step:
  "run_passes m ((h, now) # rest) (hq, granted) =
     run_passes m rest
       (hq(h \<mapsto> snd (throttle_attempt m now (queue_of hq h))),
        if length (evict now (queue_of hq h)) < m then granted @ [(h, now)] else granted)"
  by (auto simp: throttle_host_eq throttle_attempt_def Let_def)

lemma grants_of_snoc:
  "grants_of (granted @ [(h, now)]) h' =
     (if h' = h then grants_of granted h' @ [now] else grants_of granted h')"
  by (simp add: grants_of_def)

lemma queue_of_upd: "queue_of (hq(h \<mapsto> q)) h' = (if h' = h then q else queue_of hq h')"
  by (simp add: queue_of_def)

lemma granted_within_grants:
  "granted_within granted h a = length (filter (\<lambda>t. a \<le> t \<and> t \<le> a + 1000) (grants_of granted h))"
proof -
  have "filter (\<lambda>t. a \<le> t \<and> t \<le> a + 1000) (map snd (filter (\<lambda>g. fst g = h) granted)) =
        map snd (filter (\<lambda>g. fst g = h \<and> a \<le> snd g \<and> snd g \<le> a + 1000) granted)"
    by (induction granted) auto
  then show ?thesis by (simp add: granted_within_def grants_of_def)
qed

lemma length_filter_mono:
  "(\<And>x. x \<in> set xs \<Longrightarrow> P x \<Longrightarrow> Q x) \<Longrightarrow> length (filter P xs) \<le> length (filter Q xs)"
  by (induction xs) auto

lemma limiter_inv_step:
  assumes inv: "limiter_inv m T hq granted" and le: "T \<le> now"
  shows "limiter_inv m now
           (hq(h0 \<mapsto> snd (throttle_attempt m now (queue_of hq h0))))
           (if length (evict now (queue_of hq h0)) < m then granted @ [(h0, now)] else granted)"
  unfolding limiter_inv_def
proof (intro allI)
  fix h
  let ?g = "grants_of granted h"
  let ?hq' = "hq(h0 \<mapsto> snd (throttle_attempt m now (queue_of hq h0)))"
  let ?gr' = "if length (evict now (queue_of hq h0)) < m then granted @ [(h0, now)] else granted"
  from inv obtain Th where
    sg: "sorted ?g" and Th: "Th \<le> T" and gle: "\<forall>t \<in> set ?g. t \<le> Th"
    and q: "queue_of hq h = filter (\<lambda>t. Th - 1000 \<le> t) ?g"
    and W: "\<forall>a. length (filter (\<lambda>t. a \<le> t \<and> t \<le> a + 1000) ?g) \<le> m"
    unfolding limiter_inv_def by blast
  show "sorted (grants_of ?gr' h) \<and>
        (\<exists>Th. Th \<le> now \<and> (\<forall>t \<in> set (grants_of ?gr' h). t \<le> Th) \<and>
              queue_of ?hq' h = filter (\<lambda>t. Th - 1000 \<le> t) (grants_of ?gr' h)) \<and>
        (\<forall>a. length (filter (\<lambda>t. a \<le> t \<and> t \<le> a + 1000) (grants_of ?gr' h)) \<le> m)"
  proof (cases "h = h0")
    case False
    have g': "grants_of ?gr' h = ?g" using False by (simp add: grants_of_snoc)
    have q': "queue_of ?hq' h = queue_of hq h" using False by (simp add: queue_of_upd)
    show ?thesis unfolding g' q' using sg Th gle q W le by (intro conjI exI [of _ Th]) auto
  next
    case True
    have sq: "sorted (queue_of hq h)" unfolding q using sg by (rule sorted_wrt_filter)
    have ev: "evict now (queue_of hq h) = filter (\<lambda>t. now - 1000 \<le> t) ?g"
    proof -
      have "evict now (queue_of hq h) = filter (\<lambda>t. now - 1000 \<le> t) (queue_of hq h)"
        using sq by (rule evict_filter)
      also have "\<dots> = filter (\<lambda>t. now - 1000 \<le> t \<and> Th - 1000 \<le> t) ?g"
        unfolding q by (simp add: conj_commute)
      also have "\<dots> = filter (\<lambda>t. now - 1000 \<le> t) ?g"
        using Th le by (intro filter_cong) auto
      finally show ?thesis .
    qed
    have glenow: "\<forall>t \<in> set ?g. t \<le> now" using gle Th le by auto
    show ?thesis
    proof (cases "length (evict now (queue_of hq h0)) < m")
      case wait: False
      have g': "grants_of ?gr' h = ?g" using wait by simp
      have q': "queue_of ?hq' h = filter (\<lambda>t. now - 1000 \<le> t) ?g"
        using wait True ev by (simp add: queue_of_upd attempt_queue)
      show ?thesis unfolding g' q' using sg glenow W by (intro conjI exI [of _ now]) auto
    next
      case go: True
      have g': "grants_of ?gr' h = ?g @ [now]" using go True by (simp add: grants_of_snoc)
      have q': "queue_of ?hq' h = filter (\<lambda>t. now - 1000 \<le> t) (?g @ [now])"
        using go True ev by (simp add: queue_of_upd attempt_queue)
      have room: "length (filter (\<lambda>t. now - 1000 \<le> t) ?g) < m" using go True ev by simp
      have s': "sorted (?g @ [now])" using sg glenow by (simp add: sorted_append)
      have W': "length (filter (\<lambda>t. a \<le> t \<and> t \<le> a + 1000) (?g @ [now])) \<le> m" for a
      proof (cases "a \<le> now \<and> now \<le> a + 1000")
        case False
        then show ?thesis using W by auto
      next
        case inw: True
        have "length (filter (\<lambda>t. a \<le> t \<and> t \<le> a + 1000) ?g) \<le>
              length (filter (\<lambda>t. now - 1000 \<le> t) ?g)"
          using inw by (intro length_filter_mono) auto
        then show ?thesis using room inw by simp
      qed
      show ?thesis
        unfolding g' q' using s' glenow W' by (intro conjI exI [of _ now]) auto
    qed
  qed
qed

lemma limiter_inv_run:
  "limiter_inv m T hq granted \<Longrightarrow> sorted (map snd passes) \<Longrightarrow> (\<forall>p \<in> set passes. T \<le> snd p) \<Longrightarrow>
   \<exists>T'. limiter_inv m T' (fst (run_passes m passes (hq, granted)))
                        (snd (run_passes m passes (hq, granted)))"
proof (induction passes arbitrary: T hq granted)
  case Nil
  then show ?case by auto
next
  case (Cons p rest)
  obtain h now where p: "p = (h, now)" by (cases p)
  have le: "T \<le> now" using Cons.prems(3) p by simp
  have srt: "sorted (map snd rest)" and ge: "\<forall>p \<in> set rest. now \<le> snd p"
    using Cons.prems(2) p by auto
  have step: "limiter_inv m now
      (hq(h \<mapsto> snd (throttle_attempt m now (queue_of hq h))))
      (if length (evict now (queue_of hq h)) < m then granted @ [(h, now)] else granted)"
    by (rule limiter_inv_step [OF Cons.prems(1) le])
  from Cons.IH [OF step srt ge]
  show ?case unfolding p run_passes_step .
qed

lemma limiter_inv_empty: "limiter_inv m T Map.empty []"
  by (auto simp: limiter_inv_def grants_of_def queue_of_def intro: exI [of _ T])

lemma limiter_inv_queue:
  assumes "limiter_inv m T hq granted"
  shows "length (queue_of hq h) \<le> m \<and> sorted (queue_of hq h) \<and>
         (\<forall>t \<in> set (queue_of hq h). \<forall>t' \<in> set (queue_of hq h). t' - t \<le> 1000) \<and>
         granted_within granted h a \<le> m"
proof -
  from assms obtain Th where
    sg: "sorted (grants_of granted h)" and gle: "\<forall>t \<in> set (grants_of granted h). t \<le> Th"
    and q: "queue_of hq h = filter (\<lambda>t. Th - 1000 \<le> t) (grants_of granted h)"
    and W: "\<forall>a. length (filter (\<lambda>t. a \<le> t \<and> t \<le> a + 1000) (grants_of granted h)) \<le> m"
    unfolding limiter_inv_def by blast
  have "queue_of hq h = filter (\<lambda>t. Th - 1000 \<le> t \<and> t \<le> (Th - 1000) + 1000) (grants_of granted h)"
    unfolding q using gle by (intro filter_cong) auto
  then have l: "length (queue_of hq h) \<le> m" using W by metis
  have s: "sorted (queue_of hq h)" unfolding q using sg by (rule sorted_wrt_filter)
  have d: "\<forall>t \<in> set (queue_of hq h). \<forall>t' \<in> set (queue_of hq h). t' - t \<le> 1000"
    unfolding q using gle by auto
  show ?thesis using l s d W by (simp add: granted_within_grants)
qed

lemma throttle_Suc:
  "throttle (Suc fuel) m lag k now h hq =
     (case fst (throttle_attempt m now (queue_of hq h)) of
        Proceed \<Rightarrow> Some (now, hq(h \<mapsto> snd (throttle_attempt m now (queue_of hq h))))
      | WaitFor d \<Rightarrow>
          throttle fuel m lag (Suc k) (now + timer_delay d + int (lag k)) h
            (hq(h \<mapsto> snd (throttle_attempt m now (queue_of hq h)))))"
  by (simp add: throttle_host_eq)

lemma throttle_two_passes:
  assumes m: "0 < m" and len: "length (queue_of hq h) \<le> m"
  shows "\<exists>t hq'. throttle (Suc (Suc fuel)) m lag k now h hq = Some (t, hq') \<and> now \<le> t \<and>
           length (queue_of hq' h) \<le> m \<and> queue_of hq' h \<noteq> [] \<and> last (queue_of hq' h) = t"
proof (cases "length (evict now (queue_of hq h)) < m")
  case True
  then have pr: "fst (throttle_attempt m now (queue_of hq h)) = Proceed"
    by (simp add: attempt_proceed_iff)
  have "throttle (Suc (Suc fuel)) m lag k now h hq =
      Some (now, hq(h \<mapsto> evict now (queue_of hq h) @ [now]))"
    using True by (subst throttle_Suc) (simp add: pr attempt_queue del: throttle.simps)
  then show ?thesis using True by (simp add: queue_of_upd)
next
  case False
  let ?q1 = "evict now (queue_of hq h)"
  have l1: "length ?q1 \<le> m" using len length_evict [of now "queue_of hq h"] by simp
  from False m obtain oldest rest where e: "?q1 = oldest # rest" by (cases ?q1) auto
  have att: "throttle_attempt m now (queue_of hq h) = (WaitFor (Some (1000 - (now - oldest) + 10)), ?q1)"
    using False e by (simp add: throttle_attempt_def Let_def)
  have ge: "\<not> oldest < now - 1000"
    using evict_hd [OF e] by simp
  define now' where "now' = now + timer_delay (Some (1000 - (now - oldest) + 10)) + int (lag k)"
  have later: "oldest + 1010 \<le> now'" by (simp add: now'_def timer_delay_def)
  have nowle: "now \<le> now'" using ge by (simp add: now'_def timer_delay_def)
  define hq1 where "hq1 = hq(h \<mapsto> ?q1)"
  have q1: "queue_of hq1 h = ?q1" by (simp add: hq1_def queue_of_upd)
  have room: "length (evict now' ?q1) < m"
    using evict_head_later [OF e later] l1 e by simp
  have step1: "throttle (Suc (Suc fuel)) m lag k now h hq = throttle (Suc fuel) m lag (Suc k) now' h hq1"
    unfolding now'_def hq1_def by (subst throttle_Suc) (simp add: att del: throttle.simps)
  have pr2: "fst (throttle_attempt m now' (queue_of hq1 h)) = Proceed"
    using room by (simp add: attempt_proceed_iff q1)
  have sq2: "snd (throttle_attempt m now' (queue_of hq1 h)) = evict now' ?q1 @ [now']"
    using room by (simp add: attempt_queue q1)
  have step2: "throttle (Suc fuel) m lag (Suc k) now' h hq1 =
      Some (now', hq1(h \<mapsto> evict now' ?q1 @ [now']))"
    by (subst throttle_Suc) (simp add: pr2 sq2 del: throttle.simps)
  show ?thesis
    unfolding step1 step2 using room nowle by (simp add: queue_of_upd)
qed

lemma run_passes_length:
  "(\<forall>h. length (queue_of hq h) \<le> m) \<Longrightarrow>
   length (queue_of (fst (run_passes m passes (hq, granted))) h) \<le> m"
proof (induction passes arbitrary: hq granted)
  case Nil
  then show ?case by simp
next
  case (Cons p rest)
  obtain h0 now where p: "p = (h0, now)" by (cases p)
  have "\<forall>h. length (queue_of (hq(h0 \<mapsto> snd (throttle_attempt m now (queue_of hq h0)))) h) \<le> m"
    using Cons.prems attempt_length [of "queue_of hq h0" m now] by (simp add: queue_of_upd)
  from Cons.IH [OF this] show ?case unfolding p run_passes_step .
qed

lemma throttle_proceeds_now:
  assumes "length (evict now (queue_of hq h)) < m"
  shows "throttle (Suc fuel) m lag k now h hq =
     Some (now, hq(h \<mapsto> evict now (queue_of hq h) @ [now]))"
proof -
  have pr: "fst (throttle_attempt m now (queue_of hq h)) = Proceed"
    using assms by (simp add: attempt_proceed_iff)
  show ?thesis
    using assms by (subst throttle_Suc) (simp add: pr attempt_queue del: throttle.simps)
qed

lemma throttle_one_pass_at_capacity:
  assumes "m \<le> length (evict now (queue_of hq h))"
  shows "throttle (Suc 0) m lag k now h hq = None"
proof -
  have "fst (throttle_attempt m now (queue_of hq h)) \<noteq> Proceed"
    using assms by (simp add: attempt_proceed_iff)
  then obtain d where "fst (throttle_attempt m now (queue_of hq h)) = WaitFor d"
    by (cases "fst (throttle_attempt m now (queue_of hq h))") auto
  then show ?thesis by (subst throttle_Suc) simp
qed

lemma throttle_waits_for_oldest:
  assumes m: "0 < m" and e: "evict now (queue_of hq h) = oldest # rest"
    and full: "length (oldest # rest) = m"
  shows "throttle (Suc (Suc fuel)) m lag k now h hq =
     Some (oldest + 1010 + int (lag k),
           hq(h \<mapsto> evict (oldest + 1010 + int (lag k)) (oldest # rest)
                    @ [oldest + 1010 + int (lag k)]))"
proof -
  let ?q1 = "evict now (queue_of hq h)"
  have att: "throttle_attempt m now (queue_of hq h) = (WaitFor (Some (1000 - (now - oldest) + 10)), ?q1)"
    using full e by (simp add: throttle_attempt_def Let_def)
  have ge: "now - 1000 \<le> oldest" using evict_hd [OF e] .
  define now' where "now' = now + timer_delay (Some (1000 - (now - oldest) + 10)) + int (lag k)"
  have now'_eq: "now' = oldest + 1010 + int (lag k)"
    using ge by (simp add: now'_def timer_delay_def)
  have later: "oldest + 1010 \<le> now'" by (simp add: now'_eq)
  define hq1 where "hq1 = hq(h \<mapsto> ?q1)"
  have q1: "queue_of hq1 h = ?q1" by (simp add: hq1_def queue_of_upd)
  have room: "length (evict now' ?q1) < m"
    using evict_head_later [OF e later] full e by simp
  have step1: "throttle (Suc (Suc fuel)) m lag k now h hq = throttle (Suc fuel) m lag (Suc k) now' h hq1"
    unfolding now'_def hq1_def by (subst throttle_Suc) (simp add: att del: throttle.simps)
  have step2: "throttle (Suc fuel) m lag (Suc k) now' h hq1 =
      Some (now', hq1(h \<mapsto> evict now' (queue_of hq1 h) @ [now']))"
    using room by (intro throttle_proceeds_now) (simp add: q1)
  have upd: "hq1(h \<mapsto> evict now' (queue_of hq1 h) @ [now']) = hq(h \<mapsto> evict now' (oldest # rest) @ [now'])"
    unfolding q1 e by (simp add: hq1_def)
  have "throttle (Suc (Suc fuel)) m lag k now h hq =
      Some (now', hq(h \<mapsto> evict now' (oldest # rest) @ [now']))"
    by (simp only: step1 step2 upd)
  then show ?thesis unfolding now'_eq .
qed

lemma throttle_zero_cap: "throttle fuel 0 lag k now h hq = None"
proof (induction fuel arbitrary: k now hq)
  case 0
  then show ?case by simp
next
  case (Suc fuel)
  have "fst (throttle_attempt 0 now (queue_of hq h)) \<noteq> Proceed"
    by (simp add: attempt_proceed_iff)
  then obtain d where d: "fst (throttle_attempt 0 now (queue_of hq h)) = WaitFor d"
    by (cases "fst (throttle_attempt 0 now (queue_of hq h))") auto
  show ?case by (subst throttle_Suc) (simp add: d Suc.IH del: throttle.simps)
qed

text \<open>
  Claim C7. Whatever passes through \<open>throttle\<close> are made, for whatever hosts and at
  whatever clock readings, the queue of a host never holds more than \<open>m\<close> time stamps (the
  cap, 10 by default). When the clock does not run backwards, the queue is in order of
  time, its time stamps lie within one second of each other, and no stretch of one second
  holds more than \<open>m\<close> requests to the host that proceeded. Every pass evicts before it
  checks the capacity: the caller proceeds exactly when the evicted queue has room, and on
  a queue in order of time eviction removes exactly the time stamps older than a second.
  A caller that finds the queue at capacity sleeps for \<open>oldest + 1010 - now\<close>
  milliseconds, that is until 10 ms after the oldest time stamp has left the window, and
  at any later pass the oldest time stamp is evicted. For a whole call by a caller alone
  on the limiter: when the evicted queue has room the call returns at once, at \<open>now\<close>,
  with \<open>now\<close> pushed; when it is at capacity the first pass does not let the caller
  proceed, and the call returns at its second pass, at the instant
  \<open>oldest + 1010 + lag\<close> (the lateness of the timer), with the queue evicted at that
  instant and that instant pushed; with a cap of 0 the call never returns.
\<close>

theorem throttle_window_bounded:
  "length (queue_of (fst (run_passes m passes (Map.empty, []))) h) \<le> m \<and>
   (sorted (map snd passes) \<longrightarrow>
      sorted (queue_of (fst (run_passes m passes (Map.empty, []))) h) \<and>
      (\<forall>t \<in> set (queue_of (fst (run_passes m passes (Map.empty, []))) h).
         \<forall>t' \<in> set (queue_of (fst (run_passes m passes (Map.empty, []))) h). t' - t \<le> 1000) \<and>
      granted_within (snd (run_passes m passes (Map.empty, []))) h a \<le> m) \<and>
   (fst (throttle_attempt m now q) = Proceed \<longleftrightarrow> length (evict now q) < m) \<and>
   snd (throttle_attempt m now q) =
     (if length (evict now q) < m then evict now q @ [now] else evict now q) \<and>
   (sorted q \<longrightarrow> evict now q = filter (\<lambda>t. now - 1000 \<le> t) q) \<and>
   (0 < m \<and> throttle_attempt m now q = (WaitFor d, q') \<longrightarrow>
      q' = evict now q \<and> q' \<noteq> [] \<and> d = Some (hd q' + 1010 - now) \<and>
      (\<forall>now'. hd q' + 1010 \<le> now' \<longrightarrow> length (evict now' q') < length q')) \<and>
   (0 < m \<and> length (queue_of hq h) \<le> m \<longrightarrow>
      (\<exists>t hq'. throttle (Suc (Suc fuel)) m lag k now h hq = Some (t, hq') \<and> now \<le> t \<and>
         length (queue_of hq' h) \<le> m \<and> last (queue_of hq' h) = t)) \<and>
   (length (evict now (queue_of hq h)) < m \<longrightarrow>
      throttle (Suc fuel) m lag k now h hq =
        Some (now, hq(h \<mapsto> evict now (queue_of hq h) @ [now]))) \<and>
   (m \<le> length (evict now (queue_of hq h)) \<longrightarrow>
      throttle (Suc 0) m lag k now h hq = None) \<and>
   (0 < m \<and> evict now (queue_of hq h) = oldest # rest \<and> length (oldest # rest) = m \<longrightarrow>
      throttle (Suc (Suc fuel)) m lag k now h hq =
        Some (oldest + 1010 + int (lag k),
              hq(h \<mapsto> evict (oldest + 1010 + int (lag k)) (oldest # rest)
                       @ [oldest + 1010 + int (lag k)]))) \<and>
   throttle fuel 0 lag k now h hq = None \<and>
   throttle_host m now h hq =
     (fst (throttle_attempt m now (queue_of hq h)),
      hq(h \<mapsto> snd (throttle_attempt m now (queue_of hq h)))) \<and>
   run_passes m ((h, now) # later) (hq, granted) =
     run_passes m later
       (hq(h \<mapsto> snd (throttle_attempt m now (queue_of hq h))),
        if length (evict now (queue_of hq h)) < m then granted @ [(h, now)] else granted)"
proof (intro conjI impI)
  show "length (queue_of (fst (run_passes m passes (Map.empty, []))) h) \<le> m"
    by (rule run_passes_length) (simp add: queue_of_def)
next
  assume srt: "sorted (map snd passes)"
  define T where "T = (case passes of [] \<Rightarrow> 0 | p # ps \<Rightarrow> snd p)"
  have lb: "\<forall>p \<in> set passes. T \<le> snd p"
    using srt by (cases passes) (auto simp: T_def)
  from limiter_inv_run [OF limiter_inv_empty srt lb]
  obtain T' where inv: "limiter_inv m T' (fst (run_passes m passes (Map.empty, [])))
      (snd (run_passes m passes (Map.empty, [])))" by blast
  from limiter_inv_queue [OF inv, of h a]
  show "sorted (queue_of (fst (run_passes m passes (Map.empty, []))) h)"
    and "\<forall>t \<in> set (queue_of (fst (run_passes m passes (Map.empty, []))) h).
         \<forall>t' \<in> set (queue_of (fst (run_passes m passes (Map.empty, []))) h). t' - t \<le> 1000"
    and "granted_within (snd (run_passes m passes (Map.empty, []))) h a \<le> m"
    by blast+
next
  show "fst (throttle_attempt m now q) = Proceed \<longleftrightarrow> length (evict now q) < m"
    by (rule attempt_proceed_iff)
  show "snd (throttle_attempt m now q) =
     (if length (evict now q) < m then evict now q @ [now] else evict now q)"
    by (rule attempt_queue)
  show "evict now q = filter (\<lambda>t. now - 1000 \<le> t) q" if "sorted q"
    using that by (rule evict_filter)
next
  assume w: "0 < m \<and> throttle_attempt m now q = (WaitFor d, q')"
  then have a: "q' = evict now q \<and> q' \<noteq> [] \<and> d = Some (hd q' + 1010 - now) \<and> m \<le> length q'"
    by (intro attempt_wait) blast+
  then show "q' = evict now q" and "q' \<noteq> []" and "d = Some (hd q' + 1010 - now)" by blast+
  show "\<forall>now'. hd q' + 1010 \<le> now' \<longrightarrow> length (evict now' q') < length q'"
  proof (intro allI impI)
    fix now' assume l: "hd q' + 1010 \<le> now'"
    from a have "q' \<noteq> []" by blast
    then obtain oldest rest where e: "q' = oldest # rest" by (auto simp: neq_Nil_conv)
    have "length (evict now' (oldest # rest)) \<le> length rest"
      using l e length_evict [of now' rest] by simp
    then show "length (evict now' q') < length q'" using e by simp
  qed
next
  assume "0 < m \<and> length (queue_of hq h) \<le> m"
  then have "\<exists>t hq'. throttle (Suc (Suc fuel)) m lag k now h hq = Some (t, hq') \<and> now \<le> t \<and>
           length (queue_of hq' h) \<le> m \<and> queue_of hq' h \<noteq> [] \<and> last (queue_of hq' h) = t"
    by (intro throttle_two_passes) blast+
  then show "\<exists>t hq'. throttle (Suc (Suc fuel)) m lag k now h hq = Some (t, hq') \<and> now \<le> t \<and>
         length (queue_of hq' h) \<le> m \<and> last (queue_of hq' h) = t"
    by blast
next
  show "throttle (Suc fuel) m lag k now h hq =
        Some (now, hq(h \<mapsto> evict now (queue_of hq h) @ [now]))"
    if "length (evict now (queue_of hq h)) < m"
    using that by (rule throttle_proceeds_now)
  show "throttle (Suc 0) m lag k now h hq = None"
    if "m \<le> length (evict now (queue_of hq h))"
    using that by (rule throttle_one_pass_at_capacity)
  show "throttle (Suc (Suc fuel)) m lag k now h hq =
        Some (oldest + 1010 + int (lag k),
              hq(h \<mapsto> evict (oldest + 1010 + int (lag k)) (oldest # rest)
                       @ [oldest + 1010 + int (lag k)]))"
    if "0 < m \<and> evict now (queue_of hq h) = oldest # rest \<and> length (oldest # rest) = m"
    using that by (intro throttle_waits_for_oldest) blast+
  show "throttle fuel 0 lag k now h hq = None" by (rule throttle_zero_cap)
  show "throttle_host m now h hq =
     (fst (throttle_attempt m now (queue_of hq h)),
      hq(h \<mapsto> snd (throttle_attempt m now (queue_of hq h))))"
    by (rule throttle_host_eq)
  show "run_passes m ((h, now) # later) (hq, granted) =
     run_passes m later
       (hq(h \<mapsto> snd (throttle_attempt m now (queue_of hq h))),
        if length (evict now (queue_of hq h)) < m then granted @ [(h, now)] else granted)"
    by (rule run_passes_step)
qed

text \<open>
  Fifteen passes for one host at the same instant under a cap of ten: ten callers
  proceed, the queue holds their ten time stamps, and a further pass at that instant is
  told to sleep 1010 ms. A caller alone on the limiter that calls \<open>throttle\<close> then, with
  a timer 3 ms late, does not proceed at its first pass and proceeds at its second, at
  1013 ms, when the ten time stamps have been evicted and the queue holds its own.
\<close>

theorem throttle_window_bounded_witness:
  "granted_within (snd (run_passes 10 fifteen_at_once (Map.empty, []))) ''h'' 0 \<le> 10 \<and>
   map snd (snd (run_passes 10 fifteen_at_once (Map.empty, []))) = replicate 10 0 \<and>
   queue_of (fst (run_passes 10 fifteen_at_once (Map.empty, []))) ''h'' = replicate 10 0 \<and>
   fst (throttle_host 10 0 ''h'' (fst (run_passes 10 fifteen_at_once (Map.empty, [])))) =
     WaitFor (Some 1010) \<and>
   throttle 1 10 (\<lambda>k. 3) 0 0 ''h'' (fst (run_passes 10 fifteen_at_once (Map.empty, []))) = None \<and>
   throttle 2 10 (\<lambda>k. 3) 0 0 ''h'' (fst (run_passes 10 fifteen_at_once (Map.empty, []))) =
     Some (1013, (fst (run_passes 10 fifteen_at_once (Map.empty, [])))(''h'' \<mapsto> [1013])) \<and>
   throttle 1 10 (\<lambda>k. 3) 0 5 ''h'' Map.empty = Some (5, [''h'' \<mapsto> [5]])"
proof -
  let ?S = "fst (run_passes 10 fifteen_at_once (Map.empty, []))"
  have s: "sorted (map snd fifteen_at_once)" by (simp add: fifteen_at_once_def)
  have a: "granted_within (snd (run_passes 10 fifteen_at_once (Map.empty, []))) ''h'' 0 \<le> 10"
    using throttle_window_bounded [where m = 10 and passes = fifteen_at_once and h = "''h''"
        and a = 0] s by blast
  have b: "map snd (snd (run_passes 10 fifteen_at_once (Map.empty, []))) = replicate 10 0"
    by code_simp
  have c: "queue_of ?S ''h'' = replicate 10 0"
    by code_simp
  have d: "fst (throttle_host 10 0 ''h'' ?S) = WaitFor (Some 1010)"
    by code_simp
  have ev: "evict 0 (queue_of ?S ''h'') = 0 # replicate 9 0" by code_simp
  have ev': "evict 1013 (0 # replicate 9 0) = []" by code_simp
  have full: "(10::nat) \<le> length (evict 0 (queue_of ?S ''h''))" unfolding ev by simp
  have e1: "throttle (Suc 0) 10 (\<lambda>k. 3) 0 0 ''h'' ?S = None"
    using throttle_window_bounded [where m = 10 and h = "''h''" and now = 0 and hq = ?S
        and lag = "\<lambda>k. 3" and k = 0] full by blast
  have h2: "(0::nat) < 10 \<and> evict 0 (queue_of ?S ''h'') = 0 # replicate 9 0 \<and>
      length ((0::int) # replicate 9 0) = 10"
    using ev by simp
  have e2: "throttle (Suc (Suc 0)) 10 (\<lambda>k. 3) 0 0 ''h'' ?S =
      Some (0 + 1010 + int 3,
            ?S(''h'' \<mapsto> evict (0 + 1010 + int 3) (0 # replicate 9 0) @ [0 + 1010 + int 3]))"
    using throttle_window_bounded [where m = 10 and h = "''h''" and now = 0 and hq = ?S
        and lag = "\<lambda>k. 3" and k = 0 and oldest = 0 and rest = "replicate 9 0" and fuel = 0] h2
    by blast
  have e2': "throttle 2 10 (\<lambda>k. 3) 0 0 ''h'' ?S = Some (1013, ?S(''h'' \<mapsto> [1013]))"
    using e2 ev' by (simp add: numeral_2_eq_2)
  have room: "length (evict 5 (queue_of Map.empty ''h'')) < 10" by (simp add: queue_of_def)
  have e3: "throttle (Suc 0) 10 (\<lambda>k. 3) 0 5 ''h'' Map.empty =
      Some (5, Map.empty(''h'' \<mapsto> evict 5 (queue_of Map.empty ''h'') @ [5]))"
    using throttle_window_bounded [where m = 10 and h = "''h''" and now = 5 and hq = Map.empty
        and lag = "\<lambda>k. 3" and k = 0 and fuel = 0] room by blast
  have e3': "throttle 1 10 (\<lambda>k. 3) 0 5 ''h'' Map.empty = Some (5, [''h'' \<mapsto> [5]])"
    using e3 by (simp add: queue_of_def)
  have e1': "throttle 1 10 (\<lambda>k. 3) 0 0 ''h'' ?S = None" using e1 by simp
  show ?thesis using a b c d e1' e2' e3' by blast
qed

end
